theory Spec2Isabelle
  imports Complex_Main "HOL-Library.AList"
begin

section \<open>The Neptune logger: checkpoint bookkeeping\<close>

text \<open>
  A shallow embedding of the checkpoint part of
  \<^verbatim>\<open>src/pytorch_lightning/loggers/neptune.py\<close>: the method
  \<^verbatim>\<open>NeptuneLogger.after_save_checkpoint\<close> and the helpers it calls.
  Python strings are \<open>string\<close>, exceptions are values of \<open>error\<close> on the left of a sum.
\<close>

subsection \<open>Strings\<close>

text \<open>Python's \<^verbatim>\<open>s.startswith(p)\<close>.\<close>

definition startswith :: "string \<Rightarrow> string \<Rightarrow> bool" where
  "startswith s p = (take (length p) s = p)"

text \<open>
  Python's \<^verbatim>\<open>s.split(sep)\<close> for a one-character separator: the result is never
  empty, and empty pieces are kept (\<^verbatim>\<open>"a//b".split("/") == ["a", "", "b"]\<close>).
\<close>

fun str_split :: "char \<Rightarrow> string \<Rightarrow> string list" where
  "str_split sep [] = [[]]"
| "str_split sep (c # cs) =
     (if c = sep then [] # str_split sep cs
      else (case str_split sep cs of
              [] \<Rightarrow> [[c]]
            | w # ws \<Rightarrow> (c # w) # ws))"

text \<open>Python's \<^verbatim>\<open>sep.join(xs)\<close> for a one-character separator.\<close>

fun str_join :: "char \<Rightarrow> string list \<Rightarrow> string" where
  "str_join sep [] = []"
| "str_join sep [x] = x"
| "str_join sep (x # y # ys) = x @ sep # str_join sep (y # ys)"

subsection \<open>Errors\<close>

text \<open>
  The exceptions the modelled code can end with. \<open>ValueError\<close> carries the message built
  in \<^verbatim>\<open>_get_full_model_name\<close>; \<open>KeyError\<close>, \<open>TypeError\<close> and \<open>AttributeError\<close> are what
  Python raises when the structure walk meets a missing key, subscripts a leaf, or asks a leaf
  for \<^verbatim>\<open>.items()\<close>; \<open>StoreError\<close> stands for any exception raised inside the Neptune
  client.
\<close>

datatype error =
    ValueError string
  | KeyError string
  | TypeError
  | AttributeError
  | StoreError string

subsection \<open>The logger and the checkpoint callback\<close>

text \<open>
  The two fields of \<^verbatim>\<open>NeptuneLogger\<close> that the checkpoint code reads.
  \<^verbatim>\<open>_log_model_checkpoints\<close> is only tested for truth.
\<close>

record neptune_logger =
  log_model_checkpoints :: bool
  prefix :: string

text \<open>
  The fields of \<^verbatim>\<open>ModelCheckpoint\<close> that are read. \<open>best_k_models\<close> is a dict from path to
  score, kept as an association list in insertion order; the score tensor is a rational number,
  and \<open>best_model_score\<close> is \<open>None\<close> when the callback has none.
\<close>

record model_checkpoint =
  dirpath :: string
  last_model_path :: string
  best_k_models :: "(string \<times> rat) list"
  best_model_path :: string
  best_model_score :: "rat option"

definition LOGGER_JOIN_CHAR :: char where
  "LOGGER_JOIN_CHAR = CHR ''/''"

text \<open>\<^verbatim>\<open>_construct_path_with_prefix(*keys)\<close>, lines 303-308.\<close>

definition construct_path_with_prefix :: "neptune_logger \<Rightarrow> string list \<Rightarrow> string" where
  "construct_path_with_prefix lg keys =
     (if prefix lg \<noteq> [] then str_join LOGGER_JOIN_CHAR (prefix lg # keys)
      else str_join LOGGER_JOIN_CHAR keys)"

text \<open>\<^verbatim>\<open>_get_full_model_name(model_path, checkpoint_callback)\<close>, lines 530-536.\<close>

definition get_full_model_name :: "string \<Rightarrow> model_checkpoint \<Rightarrow> error + string" where
  "get_full_model_name model_path cb =
     (let expected_model_path = dirpath cb @ ''/'' in
      if \<not> startswith model_path expected_model_path
      then Inl (ValueError (model_path @ '' was expected to start with '' @ expected_model_path @ ''.''))
      else Inr (drop (length expected_model_path) model_path))"

subsection \<open>The run structure and its enumeration\<close>

text \<open>
  \<^verbatim>\<open>Run.get_structure()\<close> returns a nested dict: a value is either a further dict (a
  namespace) or a leaf (an attribute of the run). A dict is an association list in insertion
  order, the order \<^verbatim>\<open>d.items()\<close> iterates in. The leaf carries what was stored: an
  uploaded file (by its local path), a string or a number.
\<close>

datatype attr = FileAttr string | StringAttr string | FloatAttr rat

datatype "structure" = Attribute attr | Namespace "(string \<times> structure) list"

text \<open>
  The invariant of a Python dict: at every level the keys are pairwise different.
\<close>

fun wf_structure :: "structure \<Rightarrow> bool" where
  "wf_structure (Attribute a) = True"
| "wf_structure (Namespace d) = (distinct (map fst d) \<and> list_all (\<lambda>(k, v). wf_structure v) d)"

text \<open>
  \<^verbatim>\<open>_dict_paths(d, path_in_build)\<close>, lines 545-552. The generator becomes the list of
  what it yields, in order. It is only ever called on a dict.
\<close>

fun dict_paths :: "(string \<times> structure) list \<Rightarrow> string option \<Rightarrow> string list" where
  "dict_paths [] path_in_build = []"
| "dict_paths ((k, v) # d) path_in_build =
     (let path = (case path_in_build of Some p \<Rightarrow> p @ ''/'' @ k | None \<Rightarrow> k) in
      (case v of
         Attribute _ \<Rightarrow> [path]
       | Namespace d' \<Rightarrow> dict_paths d' (Some path)) @ dict_paths d path_in_build)"

text \<open>
  \<^verbatim>\<open>d[k]\<close> as the lambda of line 542 applies it: a missing key is a \<open>KeyError\<close>, and a
  leaf cannot be subscripted.
\<close>

fun subscript :: "structure \<Rightarrow> string \<Rightarrow> error + structure" where
  "subscript (Attribute _) k = Inl TypeError"
| "subscript (Namespace d) k = (case map_of d k of None \<Rightarrow> Inl (KeyError k) | Some v \<Rightarrow> Inr v)"

text \<open>\<^verbatim>\<open>reduce(lambda d, k: d[k], [exp_structure, *structure_keys])\<close>, line 542.\<close>

fun reduce_subscript :: "structure \<Rightarrow> string list \<Rightarrow> error + structure" where
  "reduce_subscript d [] = Inr d"
| "reduce_subscript d (k # ks) =
     (case subscript d k of Inl e \<Rightarrow> Inl e | Inr v \<Rightarrow> reduce_subscript v ks)"

text \<open>
  \<^verbatim>\<open>_get_full_model_names_from_exp_structure(exp_structure, namespace)\<close>, lines 538-543.
  The returned Python set is a duplicate-free list; the order in which Python iterates a set is
  unspecified, and the model takes the order of \<open>remdups\<close>. When the namespace path ends at a
  leaf, \<^verbatim>\<open>d.items()\<close> in \<^verbatim>\<open>_dict_paths\<close> raises.
\<close>

definition get_full_model_names_from_exp_structure :: "structure \<Rightarrow> string \<Rightarrow> error + string list" where
  "get_full_model_names_from_exp_structure exp_structure namespace =
     (let structure_keys = str_split LOGGER_JOIN_CHAR namespace in
      case reduce_subscript exp_structure structure_keys of
        Inl e \<Rightarrow> Inl e
      | Inr (Attribute _) \<Rightarrow> Inl AttributeError
      | Inr (Namespace uploaded_models_dict) \<Rightarrow> Inr (remdups (dict_paths uploaded_models_dict None)))"

text \<open>
  The specification's side of the enumeration: the key paths of the leaves of a tree, depth
  first, one entry for each leaf and none for a namespace. This definition follows the
  specification's words, not the code; \<open>dict_paths\<close> is compared with it below.
\<close>

fun leaves_of :: "structure \<Rightarrow> string list list" where
  "leaves_of (Attribute a) = [[]]"
| "leaves_of (Namespace d) = concat (map (\<lambda>(k, v). map ((#) k) (leaves_of v)) d)"

text \<open>
  The path \<^verbatim>\<open>_dict_paths\<close> yields for the leaf at key path \<open>kp\<close>: the keys joined
  by \<open>/\<close>, after \<open>path_in_build\<close> when there is one.
\<close>

definition rel_path :: "string option \<Rightarrow> string list \<Rightarrow> string" where
  "rel_path path_in_build kp =
     (case path_in_build of None \<Rightarrow> str_join (CHR ''/'') kp
      | Some p \<Rightarrow> str_join (CHR ''/'') (p # kp))"

subsection \<open>The run\<close>

text \<open>
  \<^verbatim>\<open>self.experiment\<close> is the Neptune run, an object of the Neptune client library.
  The checkpoint code uses five of its operations: \<^verbatim>\<open>exists(path)\<close>,
  \<^verbatim>\<open>get_structure()\<close>, \<^verbatim>\<open>run[path].upload(file)\<close>, \<^verbatim>\<open>run[path] = value\<close> and
  \<^verbatim>\<open>del run[path]\<close>. They are a parameter of the model: a record of functions on a state
  \<open>'st\<close> of the run, each returning the new state and either a result or the exception it
  raised.
\<close>

record 'st run_ops =
  run_exists :: "string \<Rightarrow> 'st \<Rightarrow> (error + bool) \<times> 'st"
  run_get_structure :: "'st \<Rightarrow> (error + structure) \<times> 'st"
  run_upload :: "string \<Rightarrow> string \<Rightarrow> 'st \<Rightarrow> (error + unit) \<times> 'st"
  run_assign :: "string \<Rightarrow> attr \<Rightarrow> 'st \<Rightarrow> (error + unit) \<times> 'st"
  run_delete :: "string \<Rightarrow> 'st \<Rightarrow> (error + unit) \<times> 'st"

subsection \<open>\<^verbatim>\<open>after_save_checkpoint\<close>\<close>

text \<open>
  Lines 500-504, ``save last model''. \<open>file_names\<close> is the Python set built so far; the
  exception of a failing step leaves the run in the state that step left it in.
\<close>

definition save_last_model ::
  "'st run_ops \<Rightarrow> model_checkpoint \<Rightarrow> string \<Rightarrow> 'st \<Rightarrow> (error + string set) \<times> 'st" where
  "save_last_model ops cb checkpoints_namespace s =
     (if last_model_path cb \<noteq> [] then
        (case get_full_model_name (last_model_path cb) cb of
           Inl e \<Rightarrow> (Inl e, s)
         | Inr model_last_name \<Rightarrow>
             (case run_upload ops (checkpoints_namespace @ ''/'' @ model_last_name)
                     (last_model_path cb) s of
                (Inl e, s') \<Rightarrow> (Inl e, s')
              | (Inr _, s') \<Rightarrow> (Inr {model_last_name}, s')))
      else (Inr {}, s))"

text \<open>
  Lines 506-510, ``save best k models'': the loop over \<^verbatim>\<open>best_k_models.keys()\<close>.
\<close>

fun save_best_k_models ::
  "'st run_ops \<Rightarrow> model_checkpoint \<Rightarrow> string \<Rightarrow> string list \<Rightarrow> string set \<Rightarrow> 'st
     \<Rightarrow> (error + string set) \<times> 'st" where
  "save_best_k_models ops cb checkpoints_namespace [] file_names s = (Inr file_names, s)"
| "save_best_k_models ops cb checkpoints_namespace (key # keys) file_names s =
     (case get_full_model_name key cb of
        Inl e \<Rightarrow> (Inl e, s)
      | Inr model_name \<Rightarrow>
          (case run_upload ops (checkpoints_namespace @ ''/'' @ model_name) key s of
             (Inl e, s') \<Rightarrow> (Inl e, s')
           | (Inr _, s') \<Rightarrow>
               save_best_k_models ops cb checkpoints_namespace keys
                 (insert model_name file_names) s'))"

text \<open>
  Lines 517-518: the loop that deletes the files to drop.
\<close>

fun drop_files :: "'st run_ops \<Rightarrow> string \<Rightarrow> string list \<Rightarrow> 'st \<Rightarrow> (error + unit) \<times> 'st" where
  "drop_files ops checkpoints_namespace [] s = (Inr (), s)"
| "drop_files ops checkpoints_namespace (file_to_drop # rest) s =
     (case run_delete ops (checkpoints_namespace @ ''/'' @ file_to_drop) s of
        (Inl e, s') \<Rightarrow> (Inl e, s')
      | (Inr _, s') \<Rightarrow> drop_files ops checkpoints_namespace rest s')"

text \<open>
  Lines 512-518, ``remove old models''. \<^verbatim>\<open>list(uploaded_model_names - file_names)\<close> is
  the list of uploaded names without those in \<open>file_names\<close>.
\<close>

definition remove_old_models ::
  "'st run_ops \<Rightarrow> string \<Rightarrow> string set \<Rightarrow> 'st \<Rightarrow> (error + unit) \<times> 'st" where
  "remove_old_models ops checkpoints_namespace file_names s =
     (case run_exists ops checkpoints_namespace s of
        (Inl e, s1) \<Rightarrow> (Inl e, s1)
      | (Inr present, s1) \<Rightarrow>
          if present then
            (case run_get_structure ops s1 of
               (Inl e, s2) \<Rightarrow> (Inl e, s2)
             | (Inr exp_structure, s2) \<Rightarrow>
                 (case get_full_model_names_from_exp_structure exp_structure checkpoints_namespace of
                    Inl e \<Rightarrow> (Inl e, s2)
                  | Inr uploaded_model_names \<Rightarrow>
                      drop_files ops checkpoints_namespace
                        (filter (\<lambda>name. name \<notin> file_names) uploaded_model_names) s2))
          else (Inr (), s1))"

text \<open>
  Lines 520-528, ``log best model path and best model score''. A score tensor is true when
  it is not zero.
\<close>

definition log_best_model ::
  "'st run_ops \<Rightarrow> neptune_logger \<Rightarrow> model_checkpoint \<Rightarrow> 'st \<Rightarrow> (error + unit) \<times> 'st" where
  "log_best_model ops lg cb s =
     (case (if best_model_path cb \<noteq> []
            then run_assign ops (construct_path_with_prefix lg [''model/best_model_path''])
                   (StringAttr (best_model_path cb)) s
            else (Inr (), s)) of
        (Inl e, s1) \<Rightarrow> (Inl e, s1)
      | (Inr _, s1) \<Rightarrow>
          (case best_model_score cb of
             None \<Rightarrow> (Inr (), s1)
           | Some score \<Rightarrow>
               if score \<noteq> 0
               then run_assign ops (construct_path_with_prefix lg [''model/best_model_score''])
                      (FloatAttr score) s1
               else (Inr (), s1)))"

text \<open>
  \<^verbatim>\<open>after_save_checkpoint(checkpoint_callback)\<close>, lines 486-528.
\<close>

definition after_save_checkpoint ::
  "'st run_ops \<Rightarrow> neptune_logger \<Rightarrow> model_checkpoint \<Rightarrow> 'st \<Rightarrow> (error + unit) \<times> 'st" where
  "after_save_checkpoint ops lg cb s =
     (if \<not> log_model_checkpoints lg then (Inr (), s)
      else
        let checkpoints_namespace = construct_path_with_prefix lg [''model/checkpoints''] in
        (case save_last_model ops cb checkpoints_namespace s of
           (Inl e, s1) \<Rightarrow> (Inl e, s1)
         | (Inr file_names, s1) \<Rightarrow>
             (case save_best_k_models ops cb checkpoints_namespace
                     (map fst (best_k_models cb)) file_names s1 of
                (Inl e, s2) \<Rightarrow> (Inl e, s2)
              | (Inr file_names, s2) \<Rightarrow>
                  (case remove_old_models ops checkpoints_namespace file_names s2 of
                     (Inl e, s3) \<Rightarrow> (Inl e, s3)
                   | (Inr _, s3) \<Rightarrow> log_best_model ops lg cb s3))))"

subsection \<open>Observing the calls made to the run\<close>

text \<open>
  To count what the code asks of the run, any run can be wrapped so that it keeps a list of
  the calls made to it: each event holds the call, the exception it raised if any, and the
  state of the run after it.
\<close>

datatype call =
    Exists string
  | GetStructure
  | Upload string string
  | Assign string attr
  | Delete string

record 'st event =
  ev_call :: call
  ev_error :: "error option"
  ev_post :: 'st

definition err_of :: "error + 'a \<Rightarrow> error option" where
  "err_of r = (case r of Inl e \<Rightarrow> Some e | Inr _ \<Rightarrow> None)"

definition record_call ::
  "call \<Rightarrow> ('st \<Rightarrow> (error + 'a) \<times> 'st) \<Rightarrow> 'st \<times> 'st event list
     \<Rightarrow> (error + 'a) \<times> ('st \<times> 'st event list)" where
  "record_call c f = (\<lambda>(s, tr).
     (case f s of (r, s') \<Rightarrow>
        (r, (s', tr @ [\<lparr>ev_call = c, ev_error = err_of r, ev_post = s'\<rparr>]))))"

definition traced :: "'st run_ops \<Rightarrow> ('st \<times> 'st event list) run_ops" where
  "traced ops =
     \<lparr> run_exists = (\<lambda>p. record_call (Exists p) (run_exists ops p)),
       run_get_structure = record_call GetStructure (run_get_structure ops),
       run_upload = (\<lambda>p f. record_call (Upload p f) (run_upload ops p f)),
       run_assign = (\<lambda>p v. record_call (Assign p v) (run_assign ops p v)),
       run_delete = (\<lambda>p. record_call (Delete p) (run_delete ops p)) \<rparr>"

subsection \<open>A run as a tree\<close>

text \<open>
  Modelled from the spec: the Neptune run itself, which is not part of this repository's
  source. The specification describes it as a tree-shaped store addressed by slash-joined
  path segments, with \<open>exists\<close>, \<open>getStructure\<close>, \<open>upload\<close> (an idempotent overwrite) and
  \<open>delete\<close> (of a leaf). The state is the nested dict that \<open>getStructure\<close> returns. A path is
  cut into its segments as line 541 cuts the namespace, and a node is found as line 542 finds
  it. \<open>singleton_path\<close> builds the namespaces that a new leaf needs.
\<close>

fun singleton_path :: "string list \<Rightarrow> attr \<Rightarrow> structure" where
  "singleton_path [] a = Attribute a"
| "singleton_path (k # ks) a = Namespace [(k, singleton_path ks a)]"

text \<open>
  Modelled from the spec: writing a leaf. A leaf that is there is overwritten, a missing one
  is created with the namespaces above it. A tree cannot hold a leaf and a namespace at one
  path, so writing at a namespace or below a leaf fails.
\<close>

fun store_set :: "string list \<Rightarrow> attr \<Rightarrow> structure \<Rightarrow> error + structure" where
  "store_set [] a (Attribute _) = Inr (Attribute a)"
| "store_set [] a (Namespace d) = Inl (StoreError ''cannot write a namespace'')"
| "store_set (k # ks) a (Attribute _) = Inl (StoreError ''cannot write below an attribute'')"
| "store_set (k # ks) a (Namespace d) =
     (case map_of d k of
        None \<Rightarrow> Inr (Namespace (d @ [(k, singleton_path ks a)]))
      | Some v \<Rightarrow>
          (case store_set ks a v of
             Inl e \<Rightarrow> Inl e
           | Inr v' \<Rightarrow> Inr (Namespace (AList.update k v' d))))"

text \<open>
  Modelled from the spec: deleting a leaf. It fails when the path does not name a leaf.
\<close>

fun store_pop :: "string list \<Rightarrow> structure \<Rightarrow> error + structure" where
  "store_pop [] (Attribute _) = Inl (StoreError ''no path'')"
| "store_pop [] (Namespace d) = Inl (StoreError ''no path'')"
| "store_pop (k # ks) (Attribute _) = Inl (StoreError ''not found'')"
| "store_pop (k # ks) (Namespace d) =
     (case map_of d k of
        None \<Rightarrow> Inl (StoreError ''not found'')
      | Some v \<Rightarrow>
          (if ks = [] then
             (case v of
                Attribute _ \<Rightarrow> Inr (Namespace (AList.delete k d))
              | Namespace _ \<Rightarrow> Inl (StoreError ''cannot delete a namespace''))
           else
             (case store_pop ks v of
                Inl e \<Rightarrow> Inl e
              | Inr v' \<Rightarrow> Inr (Namespace (AList.update k v' d)))))"

text \<open>
  Modelled from the spec: the five operations on the tree. A failing operation leaves the
  tree as it was.
\<close>

definition store_write :: "string \<Rightarrow> attr \<Rightarrow> structure \<Rightarrow> (error + unit) \<times> structure" where
  "store_write path a s =
     (case store_set (str_split (CHR ''/'') path) a s of
        Inl e \<Rightarrow> (Inl e, s)
      | Inr s' \<Rightarrow> (Inr (), s'))"

definition tree_ops :: "structure run_ops" where
  "tree_ops =
     \<lparr> run_exists = (\<lambda>path s.
         (Inr (case reduce_subscript s (str_split (CHR ''/'') path) of
                 Inl _ \<Rightarrow> False | Inr _ \<Rightarrow> True), s)),
       run_get_structure = (\<lambda>s. (Inr s, s)),
       run_upload = (\<lambda>path file. store_write path (FileAttr file)),
       run_assign = store_write,
       run_delete = (\<lambda>path s.
         (case store_pop (str_split (CHR ''/'') path) s of
            Inl e \<Rightarrow> (Inl e, s)
          | Inr s' \<Rightarrow> (Inr (), s'))) \<rparr>"

text \<open>
  The leaves below a namespace, as the code itself enumerates them; none when the
  namespace is not there.
\<close>

definition namespace_leaves :: "structure \<Rightarrow> string \<Rightarrow> string set" where
  "namespace_leaves s namespace =
     (case get_full_model_names_from_exp_structure s namespace of
        Inl _ \<Rightarrow> {}
      | Inr names \<Rightarrow> set names)"

text \<open>
  The paths a call is given, in the order the code meets them: the last checkpoint when there is
  one, then the keys of \<open>best_k_models\<close>.
\<close>

definition supplied_paths :: "model_checkpoint \<Rightarrow> string list" where
  "supplied_paths cb =
     (if last_model_path cb \<noteq> [] then [last_model_path cb] else []) @ map fst (best_k_models cb)"

text \<open>The test of line 534: the path starts with the directory path followed by \<open>/\<close>.\<close>

definition valid_path :: "model_checkpoint \<Rightarrow> string \<Rightarrow> bool" where
  "valid_path cb p = startswith p (dirpath cb @ ''/'')"

text \<open>The short name of line 536.\<close>

definition short_name :: "model_checkpoint \<Rightarrow> string \<Rightarrow> string" where
  "short_name cb p = drop (length (dirpath cb @ ''/'')) p"

text \<open>The upload of lines 504 and 510 for one path.\<close>

definition upload_call :: "model_checkpoint \<Rightarrow> string \<Rightarrow> string \<Rightarrow> call" where
  "upload_call cb ns p = Upload (ns @ ''/'' @ short_name cb p) p"

text \<open>The state of the run after a list of events: the state the last of them left.\<close>

definition end_state :: "'st \<Rightarrow> 'st event list \<Rightarrow> 'st" where
  "end_state s evs = (if evs = [] then s else ev_post (last evs))"

text \<open>
  What a list of events, a result and a final state have to do with each other when nothing is
  caught, retried or rolled back: the final state is the one the last call left, and an event
  that raised is the last event and its exception is the result.
\<close>

definition run_ok :: "'st \<Rightarrow> 'st event list \<Rightarrow> error + 'a \<Rightarrow> 'st \<Rightarrow> bool" where
  "run_ok s evs r s' \<longleftrightarrow>
     s' = end_state s evs
     \<and> (\<forall>i<length evs. \<forall>e. ev_error (evs ! i) = Some e \<longrightarrow> Suc i = length evs \<and> r = Inl e)"

text \<open>
  The calls made after the uploads: the existence check, the enumeration, the deletion of a
  name that is not in \<open>file_names\<close>, and the writes of the best model path and score.
\<close>

definition later_call :: "string \<Rightarrow> string set \<Rightarrow> call \<Rightarrow> bool" where
  "later_call ns fn c \<longleftrightarrow>
     c = Exists ns \<or> c = GetStructure
     \<or> (\<exists>f. f \<notin> fn \<and> c = Delete (ns @ ''/'' @ f))
     \<or> (\<exists>p v. c = Assign p v)"

text \<open>The test of line 525.\<close>

definition score_logged :: "model_checkpoint \<Rightarrow> bool" where
  "score_logged cb = (case best_model_score cb of None \<Rightarrow> False | Some score \<Rightarrow> score \<noteq> 0)"

text \<open>Whether a call is an upload.\<close>

fun is_upload :: "call \<Rightarrow> bool" where
  "is_upload (Upload p f) = True"
| "is_upload c = False"

text \<open>The keys of a structure that the tree store builds hold no separator.\<close>

fun slash_free :: "structure \<Rightarrow> bool" where
  "slash_free (Attribute a) = True"
| "slash_free (Namespace d) = list_all (\<lambda>(k, v). CHR ''/'' \<notin> set k \<and> slash_free v) d"

text \<open>The invariant of the tree store.\<close>

definition wf_store :: "structure \<Rightarrow> bool" where
  "wf_store t \<longleftrightarrow> wf_structure t \<and> slash_free t"

text \<open>The run holds, at the place where a path is uploaded, the file of that path.\<close>

definition holds_file :: "model_checkpoint \<Rightarrow> string \<Rightarrow> structure \<Rightarrow> string \<Rightarrow> bool" where
  "holds_file cb ns t p \<longleftrightarrow>
     reduce_subscript t (str_split (CHR ''/'') (ns @ ''/'' @ short_name cb p))
       = Inr (Attribute (FileAttr p))"

section \<open>Properties\<close>

subsection \<open>Strings\<close>

lemma startswith_append [simp]: "startswith (p @ s) p"
  by (simp add: startswith_def)

lemma startswith_iff: "startswith s p \<longleftrightarrow> (\<exists>r. s = p @ r)"
  unfolding startswith_def
  by (metis append_eq_conv_conj append_take_drop_id)

subsection \<open>Enumerating the uploaded names\<close>

lemma str_join_Cons: "kp \<noteq> [] \<Longrightarrow> str_join c (k # kp) = k @ c # str_join c kp"
  by (cases kp) simp_all

lemma leaves_of_Namespace_nonempty: "kp \<in> set (leaves_of (Namespace d)) \<Longrightarrow> kp \<noteq> []"
  by auto

lemma leaves_of_Cons:
  "leaves_of (Namespace ((k, v) # d)) = map ((#) k) (leaves_of v) @ leaves_of (Namespace d)"
  by simp

lemma dict_paths_leaves:
  "dict_paths d p = map (rel_path p) (leaves_of (Namespace d))"
proof (induction d p rule: dict_paths.induct)
  case (1 p)
  show ?case by simp
next
  case (2 k v d p)
  let ?path = "case p of Some q \<Rightarrow> q @ ''/'' @ k | None \<Rightarrow> k"
  have rest: "dict_paths d p = map (rel_path p) (leaves_of (Namespace d))"
    using 2 by simp
  have head: "(case v of Attribute _ \<Rightarrow> [?path] | Namespace d' \<Rightarrow> dict_paths d' (Some ?path))
      = map (rel_path p) (map ((#) k) (leaves_of v))"
  proof (cases v)
    case (Attribute a)
    then show ?thesis by (simp add: rel_path_def split: option.split)
  next
    case (Namespace d')
    have "dict_paths d' (Some ?path) = map (rel_path (Some ?path)) (leaves_of (Namespace d'))"
      using 2 Namespace by simp
    also have "\<dots> = map (rel_path p) (map ((#) k) (leaves_of (Namespace d')))"
      unfolding map_map
    proof (rule map_cong [OF refl])
      fix kp assume "kp \<in> set (leaves_of (Namespace d'))"
      then have ne: "kp \<noteq> []" by (rule leaves_of_Namespace_nonempty)
      then show "rel_path (Some ?path) kp = (rel_path p \<circ> (#) k) kp"
        by (cases kp) (simp_all add: rel_path_def split: option.split)
    qed
    finally show ?thesis using Namespace by simp
  qed
  show ?case
    unfolding leaves_of_Cons dict_paths.simps Let_def head rest by simp
qed

lemma map_of_wf:
  "wf_structure (Namespace d) \<Longrightarrow> map_of d k = Some v \<Longrightarrow> wf_structure v"
  by (auto simp: list_all_iff dest: map_of_SomeD)

lemma leaves_of_iff:
  "wf_structure t \<Longrightarrow> kp \<in> set (leaves_of t) \<longleftrightarrow> (\<exists>a. reduce_subscript t kp = Inr (Attribute a))"
proof (induction kp arbitrary: t)
  case Nil
  then show ?case by (cases t) auto
next
  case (Cons k kp)
  show ?case
  proof (cases t)
    case (Attribute a)
    then show ?thesis by simp
  next
    case (Namespace d)
    have dist: "distinct (map fst d)" using Cons.prems Namespace by simp
    have "(k # kp) \<in> set (leaves_of t) \<longleftrightarrow> (\<exists>v. (k, v) \<in> set d \<and> kp \<in> set (leaves_of v))"
      using Namespace by auto
    also have "\<dots> \<longleftrightarrow> (\<exists>v. map_of d k = Some v \<and> kp \<in> set (leaves_of v))"
      using dist by (auto dest: map_of_SomeD)
    also have "\<dots> \<longleftrightarrow> (\<exists>v. map_of d k = Some v \<and> (\<exists>a. reduce_subscript v kp = Inr (Attribute a)))"
      using Cons.IH map_of_wf Cons.prems Namespace by blast
    also have "\<dots> \<longleftrightarrow> (\<exists>a. reduce_subscript t (k # kp) = Inr (Attribute a))"
      using Namespace by (auto split: option.splits)
    finally show ?thesis .
  qed
qed

lemma distinct_leaves_of_dict:
  "distinct (map fst d) \<Longrightarrow> (\<And>k v. (k, v) \<in> set d \<Longrightarrow> distinct (leaves_of v))
     \<Longrightarrow> distinct (leaves_of (Namespace d))"
proof (induction d)
  case Nil
  show ?case by simp
next
  case (Cons kv d)
  obtain k v where kv: "kv = (k, v)" by (cases kv)
  have knotin: "k \<notin> fst ` set d" and dist: "distinct (map fst d)"
    using Cons.prems(1) kv by auto
  have dv: "distinct (leaves_of v)"
    using Cons.prems(2) [of k v] kv by simp
  have dd: "distinct (leaves_of (Namespace d))"
  proof (rule Cons.IH [OF dist])
    fix k' v' assume "(k', v') \<in> set d"
    then show "distinct (leaves_of v')" using Cons.prems(2) [of k' v'] by simp
  qed
  have disj: "set (map ((#) k) (leaves_of v)) \<inter> set (leaves_of (Namespace d)) = {}"
    using knotin by force
  show ?case
    unfolding kv leaves_of_Cons
    using dv dd disj by (simp add: distinct_map)
qed

lemma distinct_leaves_of: "wf_structure t \<Longrightarrow> distinct (leaves_of t)"
proof (induction t)
  case (Attribute a)
  show ?case by simp
next
  case (Namespace d)
  have "distinct (map fst d)" using Namespace.prems by simp
  moreover have "\<And>k v. (k, v) \<in> set d \<Longrightarrow> distinct (leaves_of v)"
  proof -
    fix k v assume kv: "(k, v) \<in> set d"
    then have "wf_structure v" using Namespace.prems by (auto simp: list_all_iff)
    with Namespace.IH [of "(k, v)" v] kv show "distinct (leaves_of v)" by simp
  qed
  ultimately show ?case by (rule distinct_leaves_of_dict)
qed

lemma reduce_subscript_wf:
  "wf_structure t \<Longrightarrow> reduce_subscript t ks = Inr t' \<Longrightarrow> wf_structure t'"
proof (induction ks arbitrary: t)
  case Nil
  then show ?case by simp
next
  case (Cons k ks)
  show ?case
  proof (cases t)
    case (Attribute a)
    with Cons.prems show ?thesis by simp
  next
    case (Namespace d)
    with Cons.prems obtain v where v: "map_of d k = Some v" and r: "reduce_subscript v ks = Inr t'"
      by (auto split: option.splits)
    have "wf_structure v" using map_of_wf Cons.prems(1) Namespace v by blast
    with Cons.IH r show ?thesis by blast
  qed
qed

text \<open>
  C7: on a structure that contains the namespace as a dict, the enumeration returns (it is a
  total function, so it terminates, and it raises nothing); the names it returns are exactly
  the slash-joined key paths of the leaves below the namespace; the generator yields one path
  for each leaf, in depth-first order, each leaf once, and nothing for a namespace.
\<close>

theorem exp_structure_enumeration:
  assumes "wf_structure exp_structure"
      and "reduce_subscript exp_structure (str_split LOGGER_JOIN_CHAR namespace) = Inr (Namespace d)"
  shows "\<exists>names. get_full_model_names_from_exp_structure exp_structure namespace = Inr names
           \<and> distinct names
           \<and> set names = str_join LOGGER_JOIN_CHAR `
                 {kp. \<exists>a. reduce_subscript (Namespace d) kp = Inr (Attribute a)}
           \<and> dict_paths d None = map (str_join LOGGER_JOIN_CHAR) (leaves_of (Namespace d))
           \<and> distinct (leaves_of (Namespace d))"
proof -
  have wfd: "wf_structure (Namespace d)"
    using assms by (rule reduce_subscript_wf)
  have paths: "dict_paths d None = map (str_join LOGGER_JOIN_CHAR) (leaves_of (Namespace d))"
    unfolding dict_paths_leaves [of d None]
    by (rule map_cong [OF refl]) (simp add: rel_path_def LOGGER_JOIN_CHAR_def)
  have leaves: "set (leaves_of (Namespace d))
      = {kp. \<exists>a. reduce_subscript (Namespace d) kp = Inr (Attribute a)}"
    using leaves_of_iff [OF wfd] by blast
  have res: "get_full_model_names_from_exp_structure exp_structure namespace
      = Inr (remdups (dict_paths d None))"
    using assms(2) by (simp add: get_full_model_names_from_exp_structure_def)
  have "set (remdups (dict_paths d None)) = str_join LOGGER_JOIN_CHAR `
      {kp. \<exists>a. reduce_subscript (Namespace d) kp = Inr (Attribute a)}"
    unfolding set_remdups paths set_map leaves ..
  with res paths distinct_leaves_of [OF wfd] show ?thesis by simp
qed

theorem exp_structure_enumeration_witness:
  "wf_structure (Namespace [(''training'', Namespace [(''model'', Namespace [(''checkpoints'',
       Namespace [(''e1.pt'', Attribute (FileAttr ''/ckpt/e1.pt'')),
                  (''sub'', Namespace [(''e2.pt'', Attribute (FileAttr ''/ckpt/sub/e2.pt''))]),
                  (''old'', Namespace [])])])])])
   \<and> reduce_subscript (Namespace [(''training'', Namespace [(''model'', Namespace [(''checkpoints'',
       Namespace [(''e1.pt'', Attribute (FileAttr ''/ckpt/e1.pt'')),
                  (''sub'', Namespace [(''e2.pt'', Attribute (FileAttr ''/ckpt/sub/e2.pt''))]),
                  (''old'', Namespace [])])])])])
       (str_split LOGGER_JOIN_CHAR ''training/model/checkpoints'')
     = Inr (Namespace [(''e1.pt'', Attribute (FileAttr ''/ckpt/e1.pt'')),
                  (''sub'', Namespace [(''e2.pt'', Attribute (FileAttr ''/ckpt/sub/e2.pt''))]),
                  (''old'', Namespace [])])
   \<and> get_full_model_names_from_exp_structure
       (Namespace [(''training'', Namespace [(''model'', Namespace [(''checkpoints'',
       Namespace [(''e1.pt'', Attribute (FileAttr ''/ckpt/e1.pt'')),
                  (''sub'', Namespace [(''e2.pt'', Attribute (FileAttr ''/ckpt/sub/e2.pt''))]),
                  (''old'', Namespace [])])])])])
       ''training/model/checkpoints'' = Inr [''e1.pt'', ''sub/e2.pt'']
   \<and> leaves_of (Namespace [(''e1.pt'', Attribute (FileAttr ''/ckpt/e1.pt'')),
                  (''sub'', Namespace [(''e2.pt'', Attribute (FileAttr ''/ckpt/sub/e2.pt''))]),
                  (''old'', Namespace [])]) = [[''e1.pt''], [''sub'', ''e2.pt'']]"
proof -
  let ?d = "[(''e1.pt'', Attribute (FileAttr ''/ckpt/e1.pt'')),
                  (''sub'', Namespace [(''e2.pt'', Attribute (FileAttr ''/ckpt/sub/e2.pt''))]),
                  (''old'', Namespace [])]"
  let ?s = "Namespace [(''training'', Namespace [(''model'', Namespace [(''checkpoints'',
       Namespace ?d)])])]"
  have wf: "wf_structure ?s" by simp
  have nav: "reduce_subscript ?s (str_split LOGGER_JOIN_CHAR ''training/model/checkpoints'')
      = Inr (Namespace ?d)"
    by (simp add: LOGGER_JOIN_CHAR_def)
  have direct: "get_full_model_names_from_exp_structure ?s ''training/model/checkpoints''
      = Inr (remdups (dict_paths ?d None))"
    using nav by (simp add: get_full_model_names_from_exp_structure_def)
  have rd: "remdups (dict_paths ?d None) = [''e1.pt'', ''sub/e2.pt'']" by simp
  have lv: "leaves_of (Namespace ?d) = [[''e1.pt''], [''sub'', ''e2.pt'']]" by simp
  from exp_structure_enumeration [OF wf nav]
  obtain names where n: "get_full_model_names_from_exp_structure ?s ''training/model/checkpoints'' = Inr names"
    by blast
  from n [unfolded direct rd] have "names = [''e1.pt'', ''sub/e2.pt'']" by simp
  with n have "get_full_model_names_from_exp_structure ?s ''training/model/checkpoints''
      = Inr [''e1.pt'', ''sub/e2.pt'']" by simp
  with wf nav lv show ?thesis by blast
qed

subsection \<open>Logging of checkpoints switched off\<close>

text \<open>
  C10: when \<open>log_model_checkpoints\<close> is false the call returns at once. Whatever the run is,
  its state is unchanged, and the list of calls made to a wrapped run is unchanged: no upload,
  no delete, no existence check, no enumeration and no write of the best model path or score.
\<close>

theorem after_save_checkpoint_disabled:
  assumes "\<not> log_model_checkpoints lg"
  shows "after_save_checkpoint ops lg cb s = (Inr (), s)
       \<and> after_save_checkpoint (traced ops') lg cb (s', tr) = (Inr (), (s', tr))"
  using assms by (simp add: after_save_checkpoint_def)

theorem after_save_checkpoint_disabled_witness:
  "\<not> log_model_checkpoints \<lparr>log_model_checkpoints = False, prefix = ''training''\<rparr>
   \<and> after_save_checkpoint (traced tree_ops) \<lparr>log_model_checkpoints = False, prefix = ''training''\<rparr>
       \<lparr>dirpath = ''/ckpt'', last_model_path = ''/ckpt/e5.pt'',
        best_k_models = [(''/ckpt/e3.pt'', 9 / 10)], best_model_path = ''/ckpt/e3.pt'',
        best_model_score = Some (9 / 10)\<rparr>
       (Namespace [(''training'', Namespace [(''model'', Namespace [(''checkpoints'',
          Namespace [(''e1.pt'', Attribute (FileAttr ''/ckpt/e1.pt''))])])])], [])
     = (Inr (), (Namespace [(''training'', Namespace [(''model'', Namespace [(''checkpoints'',
          Namespace [(''e1.pt'', Attribute (FileAttr ''/ckpt/e1.pt''))])])])], []))"
proof -
  have h: "\<not> log_model_checkpoints \<lparr>log_model_checkpoints = False, prefix = ''training''\<rparr>"
    by simp
  show ?thesis
    by (rule conjI [OF h after_save_checkpoint_disabled [OF h, THEN conjunct2]])
qed

subsection \<open>The calls made to the run\<close>

lemma get_full_model_name_valid:
  "valid_path cb p \<Longrightarrow> get_full_model_name p cb = Inr (short_name cb p)"
  by (simp add: get_full_model_name_def valid_path_def short_name_def)

lemma get_full_model_name_invalid:
  "\<not> valid_path cb p \<Longrightarrow> \<exists>msg. get_full_model_name p cb = Inl (ValueError msg)"
  by (simp add: get_full_model_name_def valid_path_def)

lemma get_full_model_name_Inr:
  "get_full_model_name p cb = Inr n \<Longrightarrow> valid_path cb p \<and> n = short_name cb p"
  by (auto simp: get_full_model_name_def valid_path_def short_name_def Let_def split: if_splits)

lemma get_full_model_name_Inl:
  "get_full_model_name p cb = Inl e \<Longrightarrow> \<not> valid_path cb p"
  by (auto simp: get_full_model_name_def valid_path_def Let_def split: if_splits)

lemma after_save_checkpoint_alt:
  "after_save_checkpoint ops lg cb s =
     (if \<not> log_model_checkpoints lg then (Inr (), s)
      else
        (case save_best_k_models ops cb (construct_path_with_prefix lg [''model/checkpoints''])
                (supplied_paths cb) {} s of
           (Inl e, s2) \<Rightarrow> (Inl e, s2)
         | (Inr file_names, s2) \<Rightarrow>
             (case remove_old_models ops (construct_path_with_prefix lg [''model/checkpoints''])
                     file_names s2 of
                (Inl e, s3) \<Rightarrow> (Inl e, s3)
              | (Inr _, s3) \<Rightarrow> log_best_model ops lg cb s3)))"
  by (auto simp: after_save_checkpoint_def save_last_model_def supplied_paths_def Let_def
           split: sum.splits prod.splits)

lemma traced_simps [simp]:
  "run_exists (traced ops) p (s, tr) =
     (case run_exists ops p s of (r, s') \<Rightarrow>
        (r, (s', tr @ [\<lparr>ev_call = Exists p, ev_error = err_of r, ev_post = s'\<rparr>])))"
  "run_get_structure (traced ops) (s, tr) =
     (case run_get_structure ops s of (r, s') \<Rightarrow>
        (r, (s', tr @ [\<lparr>ev_call = GetStructure, ev_error = err_of r, ev_post = s'\<rparr>])))"
  "run_upload (traced ops) p f (s, tr) =
     (case run_upload ops p f s of (r, s') \<Rightarrow>
        (r, (s', tr @ [\<lparr>ev_call = Upload p f, ev_error = err_of r, ev_post = s'\<rparr>])))"
  "run_assign (traced ops) p v (s, tr) =
     (case run_assign ops p v s of (r, s') \<Rightarrow>
        (r, (s', tr @ [\<lparr>ev_call = Assign p v, ev_error = err_of r, ev_post = s'\<rparr>])))"
  "run_delete (traced ops) p (s, tr) =
     (case run_delete ops p s of (r, s') \<Rightarrow>
        (r, (s', tr @ [\<lparr>ev_call = Delete p, ev_error = err_of r, ev_post = s'\<rparr>])))"
  by (simp_all add: traced_def record_call_def)

lemma run_ok_Nil [simp]: "run_ok s [] r s' \<longleftrightarrow> s' = s"
  by (auto simp: run_ok_def end_state_def)

lemma run_ok_single:
  "err = err_of r \<Longrightarrow> run_ok s [\<lparr>ev_call = c, ev_error = err, ev_post = s'\<rparr>] r s'"
  by (auto simp: run_ok_def end_state_def err_of_def split: sum.splits)

lemma run_ok_Cons:
  "ev_error ev = None \<Longrightarrow> run_ok (ev_post ev) evs r s' \<Longrightarrow> run_ok s (ev # evs) r s'"
  by (auto simp: run_ok_def end_state_def nth_Cons split: nat.splits)

lemma run_ok_append:
  assumes "run_ok s evs1 (Inr x) s1" and "run_ok s1 evs2 r s2"
  shows "run_ok s (evs1 @ evs2) r s2"
proof -
  have e1: "ev_error (evs1 ! i) = None" if "i < length evs1" for i
    using assms(1) that by (cases "ev_error (evs1 ! i)") (auto simp: run_ok_def)
  have st: "s2 = end_state s (evs1 @ evs2)"
    using assms by (auto simp: run_ok_def end_state_def)
  have "Suc i = length (evs1 @ evs2) \<and> r = Inl e"
    if i: "i < length (evs1 @ evs2)" and e: "ev_error ((evs1 @ evs2) ! i) = Some e" for i e
  proof (cases "i < length evs1")
    case True
    with e1 [OF True] e show ?thesis by (simp add: nth_append)
  next
    case False
    then have j: "i - length evs1 < length evs2" using i by simp
    have "ev_error (evs2 ! (i - length evs1)) = Some e"
      using e False by (simp add: nth_append)
    with assms(2) j have "Suc (i - length evs1) = length evs2" and "r = Inl e"
      unfolding run_ok_def by blast+
    with False show ?thesis by auto
  qed
  with st show ?thesis unfolding run_ok_def by blast
qed

lemma run_ok_Inr_no_error:
  "run_ok s evs (Inr x) s' \<Longrightarrow> ev \<in> set evs \<Longrightarrow> ev_error ev = None"
  by (cases "ev_error ev") (auto simp: run_ok_def in_set_conv_nth)

lemma save_best_k_models_traced:
  "save_best_k_models (traced ops) cb ns paths fn (s, tr) = (r, (s', tr')) \<Longrightarrow>
     \<exists>evs. tr' = tr @ evs
       \<and> save_best_k_models ops cb ns paths fn s = (r, s')
       \<and> run_ok s evs r s'
       \<and> length evs \<le> length paths
       \<and> map ev_call evs = take (length evs) (map (upload_call cb ns) paths)
       \<and> list_all (valid_path cb) (take (length evs) paths)
       \<and> (\<forall>fn'. r = Inr fn' \<longrightarrow> length evs = length paths \<and> fn' = fn \<union> short_name cb ` set paths)
       \<and> (\<forall>e. r = Inl e \<longrightarrow> (\<forall>ev\<in>set evs. ev_error ev = None) \<longrightarrow>
             length evs < length paths \<and> get_full_model_name (paths ! length evs) cb = Inl e)"
proof (induction paths arbitrary: fn s tr)
  case Nil
  then show ?case by auto
next
  case (Cons key keys)
  show ?case
  proof (cases "get_full_model_name key cb")
    case (Inl e)
    with Cons.prems show ?thesis by auto
  next
    case (Inr name)
    then have valid: "valid_path cb key" and name: "name = short_name cb key"
      by (auto dest: get_full_model_name_Inr)
    obtain r1 s1 where up: "run_upload ops (ns @ ''/'' @ name) key s = (r1, s1)"
      by (cases "run_upload ops (ns @ ''/'' @ name) key s")
    let ?ev = "\<lparr>ev_call = Upload (ns @ ''/'' @ name) key, ev_error = err_of r1, ev_post = s1\<rparr>"
    show ?thesis
    proof (cases r1)
      case (Inl e)
      with Cons.prems Inr up have res: "r = Inl e" "s' = s1" "tr' = tr @ [?ev]"
        by auto
      have "save_best_k_models ops cb ns (key # keys) fn s = (r, s')"
        using Inr up Inl res by simp
      moreover have "run_ok s [?ev] r s'"
        unfolding res(1,2) Inl by (rule run_ok_single) (simp add: err_of_def)
      moreover have "map ev_call [?ev] = take (length [?ev]) (map (upload_call cb ns) (key # keys))"
        by (simp add: upload_call_def name)
      moreover have "ev_error ?ev \<noteq> None"
        using Inl by (simp add: err_of_def)
      ultimately show ?thesis
        using res valid by (intro exI [of _ "[?ev]"]) (auto simp del: save_best_k_models.simps)
    next
      case (Inr u)
      with Cons.prems \<open>get_full_model_name key cb = Inr name\<close> up
      have rec: "save_best_k_models (traced ops) cb ns keys (insert name fn) (s1, tr @ [?ev])
          = (r, (s', tr'))"
        by simp
      from Cons.IH [OF rec] obtain evs where evs:
        "tr' = (tr @ [?ev]) @ evs"
        "save_best_k_models ops cb ns keys (insert name fn) s1 = (r, s')"
        "run_ok s1 evs r s'"
        "length evs \<le> length keys"
        "map ev_call evs = take (length evs) (map (upload_call cb ns) keys)"
        "list_all (valid_path cb) (take (length evs) keys)"
        "\<forall>fn'. r = Inr fn' \<longrightarrow> length evs = length keys \<and> fn' = insert name fn \<union> short_name cb ` set keys"
        "\<forall>e. r = Inl e \<longrightarrow> (\<forall>ev\<in>set evs. ev_error ev = None) \<longrightarrow>
             length evs < length keys \<and> get_full_model_name (keys ! length evs) cb = Inl e"
        by blast
      have ok: "ev_error ?ev = None" using Inr by (simp add: err_of_def)
      have "tr' = tr @ (?ev # evs)" using evs(1) by simp
      moreover have "save_best_k_models ops cb ns (key # keys) fn s = (r, s')"
        using \<open>get_full_model_name key cb = Inr name\<close> up Inr evs(2) by simp
      moreover have "run_ok s (?ev # evs) r s'"
        using run_ok_Cons [of ?ev evs r s' s] ok evs(3) by simp
      moreover have "map ev_call (?ev # evs)
          = take (length (?ev # evs)) (map (upload_call cb ns) (key # keys))"
        using evs(5) by (simp add: upload_call_def name)
      moreover have "list_all (valid_path cb) (take (length (?ev # evs)) (key # keys))"
        using evs(6) valid by simp
      moreover have "\<forall>fn'. r = Inr fn' \<longrightarrow> length (?ev # evs) = length (key # keys)
          \<and> fn' = fn \<union> short_name cb ` set (key # keys)"
        using evs(7) name by auto
      moreover have "\<forall>e. r = Inl e \<longrightarrow> (\<forall>ev\<in>set (?ev # evs). ev_error ev = None) \<longrightarrow>
             length (?ev # evs) < length (key # keys)
             \<and> get_full_model_name ((key # keys) ! length (?ev # evs)) cb = Inl e"
        using evs(8) by simp
      moreover have "length (?ev # evs) \<le> length (key # keys)" using evs(4) by simp
      ultimately show ?thesis by blast
    qed
  qed
qed

lemma drop_files_traced:
  "drop_files (traced ops) ns fs (s, tr) = (r, (s', tr')) \<Longrightarrow>
     \<exists>evs. tr' = tr @ evs
       \<and> drop_files ops ns fs s = (r, s')
       \<and> run_ok s evs r s'
       \<and> (\<forall>ev\<in>set evs. \<exists>f\<in>set fs. ev_call ev = Delete (ns @ ''/'' @ f))"
proof (induction fs arbitrary: s tr)
  case Nil
  then show ?case by auto
next
  case (Cons f fs)
  obtain r1 s1 where del: "run_delete ops (ns @ ''/'' @ f) s = (r1, s1)"
    by (cases "run_delete ops (ns @ ''/'' @ f) s")
  let ?ev = "\<lparr>ev_call = Delete (ns @ ''/'' @ f), ev_error = err_of r1, ev_post = s1\<rparr>"
  show ?case
  proof (cases r1)
    case (Inl e)
    with Cons.prems del have res: "r = Inl e" "s' = s1" "tr' = tr @ [?ev]"
      by auto
    have "drop_files ops ns (f # fs) s = (r, s')"
      using del Inl res by simp
    moreover have "run_ok s [?ev] r s'"
      unfolding res(1,2) Inl by (rule run_ok_single) (simp add: err_of_def)
    ultimately show ?thesis
      using res by (intro exI [of _ "[?ev]"]) (auto simp del: drop_files.simps)
  next
    case (Inr u)
    with Cons.prems del
    have rec: "drop_files (traced ops) ns fs (s1, tr @ [?ev]) = (r, (s', tr'))"
      by simp
    from Cons.IH [OF rec] obtain evs where evs:
      "tr' = (tr @ [?ev]) @ evs"
      "drop_files ops ns fs s1 = (r, s')"
      "run_ok s1 evs r s'"
      "\<forall>ev\<in>set evs. \<exists>f\<in>set fs. ev_call ev = Delete (ns @ ''/'' @ f)"
      by blast
    have ok: "ev_error ?ev = None" using Inr by (simp add: err_of_def)
    have "tr' = tr @ (?ev # evs)" using evs(1) by simp
    moreover have "drop_files ops ns (f # fs) s = (r, s')"
      using del Inr evs(2) by simp
    moreover have "run_ok s (?ev # evs) r s'"
      using run_ok_Cons [of ?ev evs r s' s] ok evs(3) by simp
    moreover have "\<forall>ev\<in>set (?ev # evs). \<exists>g\<in>set (f # fs). ev_call ev = Delete (ns @ ''/'' @ g)"
      using evs(4) by auto
    ultimately show ?thesis by blast
  qed
qed

lemma remove_old_models_traced:
  assumes "remove_old_models (traced ops) ns fn (s, tr) = (r, (s', tr'))"
  shows "\<exists>evs. tr' = tr @ evs
       \<and> remove_old_models ops ns fn s = (r, s')
       \<and> run_ok s evs r s'
       \<and> (\<forall>ev\<in>set evs. later_call ns fn (ev_call ev))"
proof -
  obtain r1 s1 where ex: "run_exists ops ns s = (r1, s1)"
    by (cases "run_exists ops ns s")
  let ?e1 = "\<lparr>ev_call = Exists ns, ev_error = err_of r1, ev_post = s1\<rparr>"
  have l1: "later_call ns fn (ev_call ?e1)" by (simp add: later_call_def)
  show ?thesis
  proof (cases r1)
    case (Inl e)
    with assms ex have res: "r = Inl e" "s' = s1" "tr' = tr @ [?e1]"
      by (auto simp: remove_old_models_def)
    have "remove_old_models ops ns fn s = (r, s')"
      using ex Inl res by (simp add: remove_old_models_def)
    moreover have "run_ok s [?e1] r s'"
      unfolding res(1,2) Inl by (rule run_ok_single) (simp add: err_of_def)
    ultimately show ?thesis
      using res l1 by (intro exI [of _ "[?e1]"]) simp
  next
    case (Inr present)
    have ok1: "ev_error ?e1 = None" using Inr by (simp add: err_of_def)
    show ?thesis
    proof (cases present)
      case False
      with assms ex Inr have res: "r = Inr ()" "s' = s1" "tr' = tr @ [?e1]"
        by (auto simp: remove_old_models_def)
      have "remove_old_models ops ns fn s = (r, s')"
        using ex Inr False res by (simp add: remove_old_models_def)
      moreover have "run_ok s [?e1] r s'"
        unfolding res(1,2) using Inr by (intro run_ok_single) (simp add: err_of_def)
      ultimately show ?thesis
        using res l1 by (intro exI [of _ "[?e1]"]) simp
    next
      case True
      obtain r2 s2 where gs: "run_get_structure ops s1 = (r2, s2)"
        by (cases "run_get_structure ops s1")
      let ?e2 = "\<lparr>ev_call = GetStructure, ev_error = err_of r2, ev_post = s2\<rparr>"
      have l2: "later_call ns fn (ev_call ?e2)" by (simp add: later_call_def)
      show ?thesis
      proof (cases r2)
        case (Inl e)
        with assms ex \<open>r1 = Inr present\<close> True gs
        have res: "r = Inl e" "s' = s2" "tr' = tr @ [?e1, ?e2]"
          by (auto simp: remove_old_models_def)
        have "remove_old_models ops ns fn s = (r, s')"
          using ex \<open>r1 = Inr present\<close> True gs Inl res by (simp add: remove_old_models_def)
        moreover have "run_ok s1 [?e2] r s'"
          unfolding res(1,2) Inl by (rule run_ok_single) (simp add: err_of_def)
        then have "run_ok s [?e1, ?e2] r s'"
          using run_ok_Cons [of ?e1 "[?e2]" r s' s] ok1 by simp
        ultimately show ?thesis
          using res l1 l2 by (intro exI [of _ "[?e1, ?e2]"]) simp
      next
        case (Inr exp_structure)
        have ok2: "ev_error ?e2 = None" using Inr by (simp add: err_of_def)
        have pre: "run_ok s [?e1, ?e2] (Inr ()) s2"
          unfolding run_ok_def end_state_def using ok1 ok2 by (auto simp: nth_Cons split: nat.splits)
        show ?thesis
        proof (cases "get_full_model_names_from_exp_structure exp_structure ns")
          case (Inl e)
          with assms ex \<open>r1 = Inr present\<close> True gs \<open>r2 = Inr exp_structure\<close>
          have res: "r = Inl e" "s' = s2" "tr' = tr @ [?e1, ?e2]"
            by (auto simp: remove_old_models_def)
          have "remove_old_models ops ns fn s = (r, s')"
            using ex \<open>r1 = Inr present\<close> True gs \<open>r2 = Inr exp_structure\<close> Inl res
            by (simp add: remove_old_models_def)
          moreover have "run_ok s [?e1, ?e2] r s'"
            unfolding res(2) run_ok_def end_state_def
            using ok1 ok2 by (auto simp: nth_Cons split: nat.splits)
          ultimately show ?thesis
            using res l1 l2 by (intro exI [of _ "[?e1, ?e2]"]) simp
        next
          case (Inr uploaded)
          let ?fs = "filter (\<lambda>name. name \<notin> fn) uploaded"
          from assms ex \<open>r1 = Inr present\<close> True gs \<open>r2 = Inr exp_structure\<close> Inr
          have rec: "drop_files (traced ops) ns ?fs (s2, tr @ [?e1, ?e2]) = (r, (s', tr'))"
            by (simp add: remove_old_models_def)
          from drop_files_traced [OF rec] obtain evs where evs:
            "tr' = (tr @ [?e1, ?e2]) @ evs"
            "drop_files ops ns ?fs s2 = (r, s')"
            "run_ok s2 evs r s'"
            "\<forall>ev\<in>set evs. \<exists>f\<in>set ?fs. ev_call ev = Delete (ns @ ''/'' @ f)"
            by blast
          have "tr' = tr @ ([?e1, ?e2] @ evs)" using evs(1) by simp
          moreover have "remove_old_models ops ns fn s = (r, s')"
            using ex \<open>r1 = Inr present\<close> True gs \<open>r2 = Inr exp_structure\<close> Inr evs(2)
            by (simp add: remove_old_models_def)
          moreover have "run_ok s ([?e1, ?e2] @ evs) r s'"
            using run_ok_append [OF pre evs(3)] .
          moreover have "\<forall>ev\<in>set ([?e1, ?e2] @ evs). later_call ns fn (ev_call ev)"
            using evs(4) l1 l2 by (auto simp: later_call_def)
          ultimately show ?thesis by blast
        qed
      qed
    qed
  qed
qed

lemma opt_assign_traced:
  assumes "(if c then run_assign (traced ops) p v (s, tr) else (Inr (), (s, tr))) = (r, (s', tr'))"
  shows "\<exists>evs. tr' = tr @ evs
       \<and> (if c then run_assign ops p v s else (Inr (), s)) = (r, s')
       \<and> run_ok s evs r s'
       \<and> (\<forall>ev\<in>set evs. \<exists>p v. ev_call ev = Assign p v)"
proof (cases c)
  case False
  with assms show ?thesis by auto
next
  case True
  obtain r1 s1 where a: "run_assign ops p v s = (r1, s1)"
    by (cases "run_assign ops p v s")
  let ?ev = "\<lparr>ev_call = Assign p v, ev_error = err_of r1, ev_post = s1\<rparr>"
  from assms True a have res: "r = r1" "s' = s1" "tr' = tr @ [?ev]" by auto
  have "run_ok s [?ev] r s'"
    unfolding res(1,2) by (rule run_ok_single) simp
  then show ?thesis
    using res a True by (intro exI [of _ "[?ev]"]) simp
qed

lemma log_best_model_alt:
  "log_best_model ops lg cb s =
     (case (if best_model_path cb \<noteq> []
            then run_assign ops (construct_path_with_prefix lg [''model/best_model_path''])
                   (StringAttr (best_model_path cb)) s
            else (Inr (), s)) of
        (Inl e, s1) \<Rightarrow> (Inl e, s1)
      | (Inr _, s1) \<Rightarrow>
          (if score_logged cb
           then run_assign ops (construct_path_with_prefix lg [''model/best_model_score''])
                  (FloatAttr (the (best_model_score cb))) s1
           else (Inr (), s1)))"
  by (auto simp: log_best_model_def score_logged_def split: option.splits prod.splits sum.splits)

lemma log_best_model_traced:
  assumes "log_best_model (traced ops) lg cb (s, tr) = (r, (s', tr'))"
  shows "\<exists>evs. tr' = tr @ evs
       \<and> log_best_model ops lg cb s = (r, s')
       \<and> run_ok s evs r s'
       \<and> (\<forall>ev\<in>set evs. \<exists>p v. ev_call ev = Assign p v)"
proof -
  let ?c1 = "best_model_path cb \<noteq> []"
  let ?p1 = "construct_path_with_prefix lg [''model/best_model_path'']"
  let ?v1 = "StringAttr (best_model_path cb)"
  let ?p2 = "construct_path_with_prefix lg [''model/best_model_score'']"
  let ?v2 = "FloatAttr (the (best_model_score cb))"
  obtain r1 s1 tr1 where
    t1: "(if ?c1 then run_assign (traced ops) ?p1 ?v1 (s, tr) else (Inr (), (s, tr))) = (r1, (s1, tr1))"
    by (metis surj_pair)
  from opt_assign_traced [OF t1] obtain evs1 where evs1:
    "tr1 = tr @ evs1"
    "(if ?c1 then run_assign ops ?p1 ?v1 s else (Inr (), s)) = (r1, s1)"
    "run_ok s evs1 r1 s1"
    "\<forall>ev\<in>set evs1. \<exists>p v. ev_call ev = Assign p v"
    by blast
  show ?thesis
  proof (cases r1)
    case (Inl e)
    from assms t1 Inl have res: "r = Inl e" "s' = s1" "tr' = tr1"
      unfolding log_best_model_alt [of "traced ops"] by (auto split: if_splits)
    have "log_best_model ops lg cb s = (r, s')"
      unfolding log_best_model_alt [of ops] using evs1(2) Inl res by (auto split: if_splits)
    moreover have "run_ok s evs1 r s'"
      using evs1(3) Inl res by (simp add: run_ok_def)
    ultimately show ?thesis using evs1(1,4) res by blast
  next
    case (Inr u)
    from assms t1 Inr have t2:
      "(if score_logged cb then run_assign (traced ops) ?p2 ?v2 (s1, tr1) else (Inr (), (s1, tr1)))
         = (r, (s', tr'))"
      unfolding log_best_model_alt [of "traced ops"] by (auto split: if_splits)
    from opt_assign_traced [OF t2] obtain evs2 where evs2:
      "tr' = tr1 @ evs2"
      "(if score_logged cb then run_assign ops ?p2 ?v2 s1 else (Inr (), s1)) = (r, s')"
      "run_ok s1 evs2 r s'"
      "\<forall>ev\<in>set evs2. \<exists>p v. ev_call ev = Assign p v"
      by blast
    have "tr' = tr @ (evs1 @ evs2)" using evs1(1) evs2(1) by simp
    moreover have "log_best_model ops lg cb s = (r, s')"
      unfolding log_best_model_alt [of ops] using evs1(2) Inr evs2(2) by (auto split: if_splits)
    moreover have "run_ok s (evs1 @ evs2) r s'"
      using run_ok_append [OF evs1(3) [unfolded Inr] evs2(3)] .
    moreover have "\<forall>ev\<in>set (evs1 @ evs2). \<exists>p v. ev_call ev = Assign p v"
      using evs1(4) evs2(4) by auto
    ultimately show ?thesis by blast
  qed
qed

lemma run_ok_Inl_cast:
  "run_ok s evs (Inl e :: error + 'a) s' \<Longrightarrow> run_ok s evs (Inl e :: error + 'b) s'"
  by (simp add: run_ok_def)

lemma after_save_checkpoint_traced:
  assumes "log_model_checkpoints lg"
      and "after_save_checkpoint (traced ops) lg cb (s, tr) = (r, (s', tr'))"
  shows "\<exists>ups rest. tr' = tr @ ups @ rest
       \<and> after_save_checkpoint ops lg cb s = (r, s')
       \<and> run_ok s (ups @ rest) r s'
       \<and> length ups \<le> length (supplied_paths cb)
       \<and> map ev_call ups = take (length ups)
            (map (upload_call cb (construct_path_with_prefix lg [''model/checkpoints'']))
               (supplied_paths cb))
       \<and> list_all (valid_path cb) (take (length ups) (supplied_paths cb))
       \<and> (\<forall>ev\<in>set rest. later_call (construct_path_with_prefix lg [''model/checkpoints''])
              (short_name cb ` set (supplied_paths cb)) (ev_call ev))
       \<and> (length ups < length (supplied_paths cb) \<longrightarrow> rest = [] \<and> (\<exists>e. r = Inl e))
       \<and> (\<forall>e. r = Inl e \<longrightarrow> length ups < length (supplied_paths cb) \<longrightarrow>
              (\<forall>ev\<in>set ups. ev_error ev = None) \<longrightarrow>
              get_full_model_name (supplied_paths cb ! length ups) cb = Inl e)"
proof -
  let ?ns = "construct_path_with_prefix lg [''model/checkpoints'']"
  let ?paths = "supplied_paths cb"
  obtain r1 s1 tr1 where
    t1: "save_best_k_models (traced ops) cb ?ns ?paths {} (s, tr) = (r1, (s1, tr1))"
    by (metis surj_pair)
  from save_best_k_models_traced [OF t1] obtain ups where ups:
    "tr1 = tr @ ups"
    "save_best_k_models ops cb ?ns ?paths {} s = (r1, s1)"
    "run_ok s ups r1 s1"
    "length ups \<le> length ?paths"
    "map ev_call ups = take (length ups) (map (upload_call cb ?ns) ?paths)"
    "list_all (valid_path cb) (take (length ups) ?paths)"
    "\<forall>fn'. r1 = Inr fn' \<longrightarrow> length ups = length ?paths \<and> fn' = {} \<union> short_name cb ` set ?paths"
    "\<forall>e. r1 = Inl e \<longrightarrow> (\<forall>ev\<in>set ups. ev_error ev = None) \<longrightarrow>
         length ups < length ?paths \<and> get_full_model_name (?paths ! length ups) cb = Inl e"
    by blast
  show ?thesis
  proof (cases r1)
    case (Inl e)
    from assms t1 Inl have res: "r = Inl e" "s' = s1" "tr' = tr1"
      unfolding after_save_checkpoint_alt [of "traced ops"] by auto
    have "after_save_checkpoint ops lg cb s = (r, s')"
      unfolding after_save_checkpoint_alt [of ops] using assms(1) ups(2) Inl res by simp
    moreover have "run_ok s (ups @ []) r s'"
      using ups(3) Inl res run_ok_Inl_cast by fastforce
    moreover have "tr' = tr @ ups @ []" using res ups(1) by simp
    moreover have "\<forall>e'. r = Inl e' \<longrightarrow> length ups < length ?paths \<longrightarrow>
              (\<forall>ev\<in>set ups. ev_error ev = None) \<longrightarrow>
              get_full_model_name (?paths ! length ups) cb = Inl e'"
      using ups(8) Inl res by simp
    moreover have "length ups < length ?paths \<longrightarrow> [] = ([] :: 'a event list) \<and> (\<exists>e. r = Inl e)"
      using res by simp
    ultimately show ?thesis
      using ups(4,5,6) by (intro exI [of _ ups] exI [of _ "[]"]) simp
  next
    case (Inr fn)
    then have full: "length ups = length ?paths" and fn: "fn = short_name cb ` set ?paths"
      using ups(7) by auto
    obtain r2 s2 tr2 where
      t2: "remove_old_models (traced ops) ?ns fn (s1, tr1) = (r2, (s2, tr2))"
      by (metis surj_pair)
    from remove_old_models_traced [OF t2] obtain evs2 where evs2:
      "tr2 = tr1 @ evs2"
      "remove_old_models ops ?ns fn s1 = (r2, s2)"
      "run_ok s1 evs2 r2 s2"
      "\<forall>ev\<in>set evs2. later_call ?ns fn (ev_call ev)"
      by blast
    show ?thesis
    proof (cases r2)
      case (Inl e)
      from assms t1 \<open>r1 = Inr fn\<close> t2 Inl have res: "r = Inl e" "s' = s2" "tr' = tr2"
        unfolding after_save_checkpoint_alt [of "traced ops"] by auto
      have "after_save_checkpoint ops lg cb s = (r, s')"
        unfolding after_save_checkpoint_alt [of ops]
        using assms(1) ups(2) \<open>r1 = Inr fn\<close> evs2(2) Inl res by simp
      moreover have "run_ok s (ups @ evs2) r s'"
        using run_ok_append [OF ups(3) [unfolded \<open>r1 = Inr fn\<close>] evs2(3)] Inl res by simp
      moreover have "tr' = tr @ ups @ evs2" using res ups(1) evs2(1) by simp
      ultimately show ?thesis
        using ups(4,5,6) evs2(4) full fn by (intro exI [of _ ups] exI [of _ evs2]) simp
    next
      case (Inr u)
      from assms t1 \<open>r1 = Inr fn\<close> t2 Inr
      have t3: "log_best_model (traced ops) lg cb (s2, tr2) = (r, (s', tr'))"
        unfolding after_save_checkpoint_alt [of "traced ops"] by auto
      from log_best_model_traced [OF t3] obtain evs3 where evs3:
        "tr' = tr2 @ evs3"
        "log_best_model ops lg cb s2 = (r, s')"
        "run_ok s2 evs3 r s'"
        "\<forall>ev\<in>set evs3. \<exists>p v. ev_call ev = Assign p v"
        by blast
      have "after_save_checkpoint ops lg cb s = (r, s')"
        unfolding after_save_checkpoint_alt [of ops]
        using assms(1) ups(2) \<open>r1 = Inr fn\<close> evs2(2) Inr evs3(2) by simp
      moreover have "run_ok s (ups @ evs2 @ evs3) r s'"
        using run_ok_append [OF ups(3) [unfolded \<open>r1 = Inr fn\<close>]
                run_ok_append [OF evs2(3) [unfolded Inr] evs3(3)]] .
      moreover have "tr' = tr @ ups @ evs2 @ evs3" using ups(1) evs2(1) evs3(1) by simp
      moreover have "\<forall>ev\<in>set (evs2 @ evs3). later_call ?ns (short_name cb ` set ?paths) (ev_call ev)"
        using evs2(4) evs3(4) fn by (auto simp: later_call_def)
      ultimately show ?thesis
        using ups(4,5,6) full by (intro exI [of _ ups] exI [of _ "evs2 @ evs3"]) simp
    qed
  qed
qed

subsection \<open>Failures of the run\<close>

text \<open>The definitions a concrete call is evaluated with.\<close>

lemmas run_defs =
  after_save_checkpoint_def save_last_model_def remove_old_models_def log_best_model_def
  get_full_model_names_from_exp_structure_def get_full_model_name_def startswith_def
  construct_path_with_prefix_def LOGGER_JOIN_CHAR_def traced_def record_call_def err_of_def
  tree_ops_def store_write_def

text \<open>
  C8: let any run be wrapped so that it records the calls made to it, and let
  \<open>after_save_checkpoint\<close> make the calls \<open>tr\<close> and end with the result \<open>r\<close> in state \<open>s'\<close>.
  Then the unwrapped run ends the same way; \<open>s'\<close> is the state the last call left (nothing is
  rolled back); and a call that raised is the last call made (nothing is retried or done
  after it) and its exception is the result of \<open>after_save_checkpoint\<close> (it is not caught).
\<close>

theorem store_error_propagates:
  assumes "after_save_checkpoint (traced ops) lg cb (s, []) = (r, (s', tr))"
  shows "after_save_checkpoint ops lg cb s = (r, s')
       \<and> s' = end_state s tr
       \<and> (\<forall>i<length tr. \<forall>e. ev_error (tr ! i) = Some e \<longrightarrow> Suc i = length tr \<and> r = Inl e)"
proof (cases "log_model_checkpoints lg")
  case False
  with assms show ?thesis
    by (auto simp: after_save_checkpoint_def end_state_def)
next
  case True
  from after_save_checkpoint_traced [OF True assms] obtain ups rest where
    "tr = [] @ ups @ rest" "after_save_checkpoint ops lg cb s = (r, s')"
    "run_ok s (ups @ rest) r s'"
    by blast
  then show ?thesis by (simp add: run_ok_def)
qed

theorem store_error_propagates_witness:
  "after_save_checkpoint (traced tree_ops) \<lparr>log_model_checkpoints = True, prefix = ''training''\<rparr>
       \<lparr>dirpath = ''/ckpt'', last_model_path = '''',
        best_k_models = [(''/ckpt/a'', 1), (''/ckpt/a/b'', 2)], best_model_path = '''',
        best_model_score = None\<rparr> (Namespace [], [])
     = (Inl (StoreError ''cannot write below an attribute''),
        (Namespace [(''training'', Namespace [(''model'', Namespace [(''checkpoints'',
            Namespace [(''a'', Attribute (FileAttr ''/ckpt/a''))])])])],
         [\<lparr>ev_call = Upload ''training/model/checkpoints/a'' ''/ckpt/a'', ev_error = None,
            ev_post = Namespace [(''training'', Namespace [(''model'', Namespace [(''checkpoints'',
              Namespace [(''a'', Attribute (FileAttr ''/ckpt/a''))])])])]\<rparr>,
          \<lparr>ev_call = Upload ''training/model/checkpoints/a/b'' ''/ckpt/a/b'',
            ev_error = Some (StoreError ''cannot write below an attribute''),
            ev_post = Namespace [(''training'', Namespace [(''model'', Namespace [(''checkpoints'',
              Namespace [(''a'', Attribute (FileAttr ''/ckpt/a''))])])])]\<rparr>]))
   \<and> after_save_checkpoint tree_ops \<lparr>log_model_checkpoints = True, prefix = ''training''\<rparr>
       \<lparr>dirpath = ''/ckpt'', last_model_path = '''',
        best_k_models = [(''/ckpt/a'', 1), (''/ckpt/a/b'', 2)], best_model_path = '''',
        best_model_score = None\<rparr> (Namespace [])
     = (Inl (StoreError ''cannot write below an attribute''),
        Namespace [(''training'', Namespace [(''model'', Namespace [(''checkpoints'',
            Namespace [(''a'', Attribute (FileAttr ''/ckpt/a''))])])])])"
proof -
  let ?lg = "\<lparr>log_model_checkpoints = True, prefix = ''training''\<rparr>"
  let ?cb = "\<lparr>dirpath = ''/ckpt'', last_model_path = '''',
        best_k_models = [(''/ckpt/a'', 1), (''/ckpt/a/b'', 2)], best_model_path = '''',
        best_model_score = None\<rparr>"
  let ?s = "Namespace [(''training'', Namespace [(''model'', Namespace [(''checkpoints'',
            Namespace [(''a'', Attribute (FileAttr ''/ckpt/a''))])])])]"
  let ?tr = "[\<lparr>ev_call = Upload ''training/model/checkpoints/a'' ''/ckpt/a'', ev_error = None,
            ev_post = ?s\<rparr>,
          \<lparr>ev_call = Upload ''training/model/checkpoints/a/b'' ''/ckpt/a/b'',
            ev_error = Some (StoreError ''cannot write below an attribute''),
            ev_post = ?s\<rparr>]"
  have run: "after_save_checkpoint (traced tree_ops) ?lg ?cb (Namespace [], [])
      = (Inl (StoreError ''cannot write below an attribute''), (?s, ?tr))"
    by (simp add: run_defs)
  from store_error_propagates [OF run]
  have "after_save_checkpoint tree_ops ?lg ?cb (Namespace [])
      = (Inl (StoreError ''cannot write below an attribute''), ?s)"
    by blast
  with run show ?thesis by (rule conjI)
qed

subsection \<open>Validation and uploads\<close>

lemma takeWhile_length_ge:
  "list_all P (take n xs) \<Longrightarrow> n \<le> length xs \<Longrightarrow> n \<le> length (takeWhile P xs)"
  by (rule length_takeWhile_less_P_nth) (auto simp: list_all_length)

lemma takeWhile_length_eq:
  assumes "list_all P (take n xs)" and "n < length xs" and "\<not> P (xs ! n)"
  shows "length (takeWhile P xs) = n"
proof -
  have "takeWhile P xs = take n xs"
    using assms by (intro takeWhile_eq_take_P_nth) (auto simp: list_all_length)
  with assms(2) show ?thesis by simp
qed

text \<open>
  C3 as the code has it: when some supplied path does not start with the directory path
  followed by \<open>/\<close>, the call raises. The only calls made to the run are uploads, of valid
  paths that come before the first invalid one, in order; so nothing is deleted, and nothing is
  uploaded when the first supplied path is the invalid one. When none of these uploads fails,
  all of them are made and the exception is the \<open>ValueError\<close> of
  \<^verbatim>\<open>_get_full_model_name\<close>.
\<close>

theorem invalid_path_raises:
  assumes "log_model_checkpoints lg"
      and "\<not> list_all (valid_path cb) (supplied_paths cb)"
      and "after_save_checkpoint (traced ops) lg cb (s, []) = (r, (s', tr))"
  shows "(\<exists>e. r = Inl e)
       \<and> length tr \<le> length (takeWhile (valid_path cb) (supplied_paths cb))
       \<and> map ev_call tr = take (length tr)
            (map (upload_call cb (construct_path_with_prefix lg [''model/checkpoints'']))
               (supplied_paths cb))
       \<and> ((\<forall>ev\<in>set tr. ev_error ev = None) \<longrightarrow>
            (\<exists>msg. r = Inl (ValueError msg))
            \<and> length tr = length (takeWhile (valid_path cb) (supplied_paths cb)))"
proof -
  let ?ns = "construct_path_with_prefix lg [''model/checkpoints'']"
  let ?paths = "supplied_paths cb"
  from after_save_checkpoint_traced [OF assms(1,3)] obtain ups rest where t:
    "tr = [] @ ups @ rest"
    "length ups \<le> length ?paths"
    "map ev_call ups = take (length ups) (map (upload_call cb ?ns) ?paths)"
    "list_all (valid_path cb) (take (length ups) ?paths)"
    "length ups < length ?paths \<longrightarrow> rest = [] \<and> (\<exists>e. r = Inl e)"
    "\<forall>e. r = Inl e \<longrightarrow> length ups < length ?paths \<longrightarrow>
        (\<forall>ev\<in>set ups. ev_error ev = None) \<longrightarrow>
        get_full_model_name (?paths ! length ups) cb = Inl e"
    by blast
  have short: "length ups < length ?paths"
  proof (rule ccontr)
    assume "\<not> length ups < length ?paths"
    with t(2) have "length ups = length ?paths" by simp
    with t(4) assms(2) show False by simp
  qed
  with t(5) obtain e where rest: "rest = []" and e: "r = Inl e" by blast
  have tr: "tr = ups" using t(1) rest by simp
  have le: "length tr \<le> length (takeWhile (valid_path cb) ?paths)"
    unfolding tr using t(4) t(2) by (rule takeWhile_length_ge)
  have all_ok: "(\<exists>msg. r = Inl (ValueError msg))
      \<and> length tr = length (takeWhile (valid_path cb) ?paths)"
    if ok: "\<forall>ev\<in>set tr. ev_error ev = None"
  proof -
    from t(6) e short ok tr have g: "get_full_model_name (?paths ! length ups) cb = Inl e"
      by blast
    then have inv: "\<not> valid_path cb (?paths ! length ups)"
      by (rule get_full_model_name_Inl)
    from get_full_model_name_invalid [OF inv] g obtain msg where "e = ValueError msg"
      by auto
    moreover have "length (takeWhile (valid_path cb) ?paths) = length ups"
      using t(4) short inv by (rule takeWhile_length_eq)
    ultimately show ?thesis using e tr by simp
  qed
  from e le t(3) all_ok show ?thesis unfolding tr by blast
qed

theorem invalid_path_raises_witness:
  "log_model_checkpoints \<lparr>log_model_checkpoints = True, prefix = ''training''\<rparr>
   \<and> \<not> list_all (valid_path \<lparr>dirpath = ''/ckpt'', last_model_path = ''/ckpt/e5.pt'',
        best_k_models = [(''/other/e3.pt'', 9 / 10)], best_model_path = '''',
        best_model_score = None\<rparr>)
       (supplied_paths \<lparr>dirpath = ''/ckpt'', last_model_path = ''/ckpt/e5.pt'',
        best_k_models = [(''/other/e3.pt'', 9 / 10)], best_model_path = '''',
        best_model_score = None\<rparr>)
   \<and> after_save_checkpoint (traced tree_ops) \<lparr>log_model_checkpoints = True, prefix = ''training''\<rparr>
       \<lparr>dirpath = ''/ckpt'', last_model_path = ''/ckpt/e5.pt'',
        best_k_models = [(''/other/e3.pt'', 9 / 10)], best_model_path = '''',
        best_model_score = None\<rparr> (Namespace [], [])
     = (Inl (ValueError ''/other/e3.pt was expected to start with /ckpt/.''),
        (Namespace [(''training'', Namespace [(''model'', Namespace [(''checkpoints'',
            Namespace [(''e5.pt'', Attribute (FileAttr ''/ckpt/e5.pt''))])])])],
         [\<lparr>ev_call = Upload ''training/model/checkpoints/e5.pt'' ''/ckpt/e5.pt'', ev_error = None,
            ev_post = Namespace [(''training'', Namespace [(''model'', Namespace [(''checkpoints'',
              Namespace [(''e5.pt'', Attribute (FileAttr ''/ckpt/e5.pt''))])])])]\<rparr>]))
   \<and> length (takeWhile (valid_path \<lparr>dirpath = ''/ckpt'', last_model_path = ''/ckpt/e5.pt'',
        best_k_models = [(''/other/e3.pt'', 9 / 10)], best_model_path = '''',
        best_model_score = None\<rparr>)
       (supplied_paths \<lparr>dirpath = ''/ckpt'', last_model_path = ''/ckpt/e5.pt'',
        best_k_models = [(''/other/e3.pt'', 9 / 10)], best_model_path = '''',
        best_model_score = None\<rparr>)) = 1"
proof -
  let ?lg = "\<lparr>log_model_checkpoints = True, prefix = ''training''\<rparr>"
  let ?cb = "\<lparr>dirpath = ''/ckpt'', last_model_path = ''/ckpt/e5.pt'',
        best_k_models = [(''/other/e3.pt'', 9 / 10)], best_model_path = '''',
        best_model_score = None\<rparr>"
  let ?s = "Namespace [(''training'', Namespace [(''model'', Namespace [(''checkpoints'',
            Namespace [(''e5.pt'', Attribute (FileAttr ''/ckpt/e5.pt''))])])])]"
  let ?tr = "[\<lparr>ev_call = Upload ''training/model/checkpoints/e5.pt'' ''/ckpt/e5.pt'',
            ev_error = None, ev_post = ?s\<rparr>]"
  have h1: "log_model_checkpoints ?lg" by simp
  have h2: "\<not> list_all (valid_path ?cb) (supplied_paths ?cb)"
    by (simp add: valid_path_def supplied_paths_def startswith_def)
  have run: "after_save_checkpoint (traced tree_ops) ?lg ?cb (Namespace [], [])
      = (Inl (ValueError ''/other/e3.pt was expected to start with /ckpt/.''), (?s, ?tr))"
    by (simp add: run_defs)
  from invalid_path_raises [OF h1 h2 run]
  have "length ?tr = length (takeWhile (valid_path ?cb) (supplied_paths ?cb))"
    by simp
  then have "length (takeWhile (valid_path ?cb) (supplied_paths ?cb)) = 1" by simp
  with h1 h2 run show ?thesis by blast
qed

text \<open>
  C3 as stated fails: the last checkpoint is validated and uploaded before the keys of
  \<open>best_k_models\<close> are looked at. With a valid last checkpoint and an invalid best-k key the
  call ends with the \<open>ValueError\<close>, and the run already holds the uploaded last checkpoint.
\<close>

theorem invalid_path_after_upload_counterexample:
  "\<not> valid_path \<lparr>dirpath = ''/ckpt'', last_model_path = ''/ckpt/e5.pt'',
        best_k_models = [(''/other/e3.pt'', 9 / 10)], best_model_path = '''',
        best_model_score = None\<rparr> ''/other/e3.pt''
   \<and> after_save_checkpoint (traced tree_ops) \<lparr>log_model_checkpoints = True, prefix = ''training''\<rparr>
       \<lparr>dirpath = ''/ckpt'', last_model_path = ''/ckpt/e5.pt'',
        best_k_models = [(''/other/e3.pt'', 9 / 10)], best_model_path = '''',
        best_model_score = None\<rparr> (Namespace [], [])
     = (Inl (ValueError ''/other/e3.pt was expected to start with /ckpt/.''),
        (Namespace [(''training'', Namespace [(''model'', Namespace [(''checkpoints'',
            Namespace [(''e5.pt'', Attribute (FileAttr ''/ckpt/e5.pt''))])])])],
         [\<lparr>ev_call = Upload ''training/model/checkpoints/e5.pt'' ''/ckpt/e5.pt'', ev_error = None,
            ev_post = Namespace [(''training'', Namespace [(''model'', Namespace [(''checkpoints'',
              Namespace [(''e5.pt'', Attribute (FileAttr ''/ckpt/e5.pt''))])])])]\<rparr>]))"
  by (simp add: run_defs valid_path_def)

text \<open>
  C2 as the code has it: when \<open>log_model_checkpoints\<close> is true, a call that returns has
  uploaded every supplied path, once for each time it is supplied and in order, whether or not
  its short name was a leaf of the namespace before; what the names in both sets are spared is
  the deletion: no short name of a supplied path is deleted. (When the flag is false nothing is
  uploaded at all, which is C10.)
\<close>

theorem uploads_every_supplied_path:
  assumes "log_model_checkpoints lg"
      and "after_save_checkpoint (traced ops) lg cb (s, []) = (Inr (), (s', tr))"
  shows "filter is_upload (map ev_call tr)
           = map (upload_call cb (construct_path_with_prefix lg [''model/checkpoints'']))
               (supplied_paths cb)
       \<and> (\<forall>p\<in>set (supplied_paths cb).
             Delete (construct_path_with_prefix lg [''model/checkpoints''] @ ''/'' @ short_name cb p)
               \<notin> ev_call ` set tr)"
proof -
  let ?ns = "construct_path_with_prefix lg [''model/checkpoints'']"
  let ?paths = "supplied_paths cb"
  from after_save_checkpoint_traced [OF assms] obtain ups rest where t:
    "tr = [] @ ups @ rest"
    "length ups \<le> length ?paths"
    "map ev_call ups = take (length ups) (map (upload_call cb ?ns) ?paths)"
    "\<forall>ev\<in>set rest. later_call ?ns (short_name cb ` set ?paths) (ev_call ev)"
    "length ups < length ?paths \<longrightarrow> rest = [] \<and> (\<exists>e. (Inr () :: error + unit) = Inl e)"
    by blast
  have full: "length ups = length ?paths" using t(2,5) by auto
  have ups: "map ev_call ups = map (upload_call cb ?ns) ?paths"
    using t(3) full by simp
  have f_ups: "filter is_upload (map ev_call ups) = map ev_call ups"
    unfolding ups by (simp add: upload_call_def)
  have f_rest: "filter is_upload (map ev_call rest) = []"
    using t(4) by (auto simp: later_call_def filter_empty_conv)
  have up: "filter is_upload (map ev_call tr) = map (upload_call cb ?ns) ?paths"
    using t(1) f_ups f_rest ups by simp
  have nodel: "Delete (?ns @ ''/'' @ short_name cb p) \<notin> ev_call ` set tr" if p: "p \<in> set ?paths" for p
  proof
    assume "Delete (?ns @ ''/'' @ short_name cb p) \<in> ev_call ` set tr"
    then obtain ev where ev: "ev \<in> set tr" "ev_call ev = Delete (?ns @ ''/'' @ short_name cb p)"
      by auto
    show False
    proof (cases "ev \<in> set ups")
      case True
      then have "ev_call ev \<in> set (map ev_call ups)" by simp
      then show False unfolding ups using ev(2) by (auto simp: upload_call_def)
    next
      case False
      with ev(1) t(1) have "ev \<in> set rest" by simp
      with t(4) have "later_call ?ns (short_name cb ` set ?paths) (ev_call ev)" by blast
      with ev(2) p show False by (auto simp: later_call_def)
    qed
  qed
  from up nodel show ?thesis by blast
qed

theorem uploads_every_supplied_path_witness:
  "log_model_checkpoints \<lparr>log_model_checkpoints = True, prefix = ''training''\<rparr>
   \<and> after_save_checkpoint (traced tree_ops) \<lparr>log_model_checkpoints = True, prefix = ''training''\<rparr>
       \<lparr>dirpath = ''/ckpt'', last_model_path = '''',
        best_k_models = [(''/ckpt/e3.pt'', 9 / 10)], best_model_path = '''',
        best_model_score = None\<rparr>
       (Namespace [(''training'', Namespace [(''model'', Namespace [(''checkpoints'',
            Namespace [(''e3.pt'', Attribute (FileAttr ''/ckpt/e3.pt''))])])])], [])
     = (Inr (),
        (Namespace [(''training'', Namespace [(''model'', Namespace [(''checkpoints'',
            Namespace [(''e3.pt'', Attribute (FileAttr ''/ckpt/e3.pt''))])])])],
         [\<lparr>ev_call = Upload ''training/model/checkpoints/e3.pt'' ''/ckpt/e3.pt'', ev_error = None,
            ev_post = Namespace [(''training'', Namespace [(''model'', Namespace [(''checkpoints'',
              Namespace [(''e3.pt'', Attribute (FileAttr ''/ckpt/e3.pt''))])])])]\<rparr>,
          \<lparr>ev_call = Exists ''training/model/checkpoints'', ev_error = None,
            ev_post = Namespace [(''training'', Namespace [(''model'', Namespace [(''checkpoints'',
              Namespace [(''e3.pt'', Attribute (FileAttr ''/ckpt/e3.pt''))])])])]\<rparr>,
          \<lparr>ev_call = GetStructure, ev_error = None,
            ev_post = Namespace [(''training'', Namespace [(''model'', Namespace [(''checkpoints'',
              Namespace [(''e3.pt'', Attribute (FileAttr ''/ckpt/e3.pt''))])])])]\<rparr>]))
   \<and> map (upload_call \<lparr>dirpath = ''/ckpt'', last_model_path = '''',
        best_k_models = [(''/ckpt/e3.pt'', 9 / 10)], best_model_path = '''',
        best_model_score = None\<rparr>
        (construct_path_with_prefix \<lparr>log_model_checkpoints = True, prefix = ''training''\<rparr>
           [''model/checkpoints'']))
       (supplied_paths \<lparr>dirpath = ''/ckpt'', last_model_path = '''',
        best_k_models = [(''/ckpt/e3.pt'', 9 / 10)], best_model_path = '''',
        best_model_score = None\<rparr>)
     = [Upload ''training/model/checkpoints/e3.pt'' ''/ckpt/e3.pt'']"
proof -
  let ?lg = "\<lparr>log_model_checkpoints = True, prefix = ''training''\<rparr>"
  let ?cb = "\<lparr>dirpath = ''/ckpt'', last_model_path = '''',
        best_k_models = [(''/ckpt/e3.pt'', 9 / 10)], best_model_path = '''',
        best_model_score = None\<rparr>"
  let ?s = "Namespace [(''training'', Namespace [(''model'', Namespace [(''checkpoints'',
            Namespace [(''e3.pt'', Attribute (FileAttr ''/ckpt/e3.pt''))])])])]"
  let ?tr = "[\<lparr>ev_call = Upload ''training/model/checkpoints/e3.pt'' ''/ckpt/e3.pt'',
            ev_error = None, ev_post = ?s\<rparr>,
          \<lparr>ev_call = Exists ''training/model/checkpoints'', ev_error = None, ev_post = ?s\<rparr>,
          \<lparr>ev_call = GetStructure, ev_error = None, ev_post = ?s\<rparr>]"
  have h1: "log_model_checkpoints ?lg" by simp
  have run: "after_save_checkpoint (traced tree_ops) ?lg ?cb (?s, []) = (Inr (), (?s, ?tr))"
    by (simp add: run_defs)
  from uploads_every_supplied_path [OF h1 run]
  have "filter is_upload (map ev_call ?tr)
      = map (upload_call ?cb (construct_path_with_prefix ?lg [''model/checkpoints'']))
          (supplied_paths ?cb)"
    by blast
  then have "map (upload_call ?cb (construct_path_with_prefix ?lg [''model/checkpoints'']))
          (supplied_paths ?cb) = [Upload ''training/model/checkpoints/e3.pt'' ''/ckpt/e3.pt'']"
    by simp
  with h1 run show ?thesis by blast
qed

text \<open>
  C2 as stated fails: the code uploads every supplied path without looking at the run first.
  Here \<open>e3.pt\<close> is a leaf of the namespace before the call and is a best-k checkpoint, and
  the call uploads it again.
\<close>

theorem reupload_counterexample:
  "namespace_leaves
       (Namespace [(''training'', Namespace [(''model'', Namespace [(''checkpoints'',
            Namespace [(''e3.pt'', Attribute (FileAttr ''/ckpt/e3.pt''))])])])])
       ''training/model/checkpoints'' = {''e3.pt''}
   \<and> get_full_model_name ''/ckpt/e3.pt'' \<lparr>dirpath = ''/ckpt'', last_model_path = '''',
        best_k_models = [(''/ckpt/e3.pt'', 9 / 10)], best_model_path = '''',
        best_model_score = None\<rparr> = Inr ''e3.pt''
   \<and> after_save_checkpoint (traced tree_ops) \<lparr>log_model_checkpoints = True, prefix = ''training''\<rparr>
       \<lparr>dirpath = ''/ckpt'', last_model_path = '''',
        best_k_models = [(''/ckpt/e3.pt'', 9 / 10)], best_model_path = '''',
        best_model_score = None\<rparr>
       (Namespace [(''training'', Namespace [(''model'', Namespace [(''checkpoints'',
            Namespace [(''e3.pt'', Attribute (FileAttr ''/ckpt/e3.pt''))])])])], [])
     = (Inr (),
        (Namespace [(''training'', Namespace [(''model'', Namespace [(''checkpoints'',
            Namespace [(''e3.pt'', Attribute (FileAttr ''/ckpt/e3.pt''))])])])],
         [\<lparr>ev_call = Upload ''training/model/checkpoints/e3.pt'' ''/ckpt/e3.pt'', ev_error = None,
            ev_post = Namespace [(''training'', Namespace [(''model'', Namespace [(''checkpoints'',
              Namespace [(''e3.pt'', Attribute (FileAttr ''/ckpt/e3.pt''))])])])]\<rparr>,
          \<lparr>ev_call = Exists ''training/model/checkpoints'', ev_error = None,
            ev_post = Namespace [(''training'', Namespace [(''model'', Namespace [(''checkpoints'',
              Namespace [(''e3.pt'', Attribute (FileAttr ''/ckpt/e3.pt''))])])])]\<rparr>,
          \<lparr>ev_call = GetStructure, ev_error = None,
            ev_post = Namespace [(''training'', Namespace [(''model'', Namespace [(''checkpoints'',
              Namespace [(''e3.pt'', Attribute (FileAttr ''/ckpt/e3.pt''))])])])]\<rparr>]))"
  by (simp add: run_defs namespace_leaves_def)

subsection \<open>The tree store\<close>

lemma str_split_nonempty [simp]: "str_split c s \<noteq> []"
  by (induction s) (auto split: list.splits)

lemma str_split_append:
  "str_split c (a @ c # b) = str_split c a @ str_split c b"
proof (induction a)
  case Nil
  show ?case by simp
next
  case (Cons x a)
  obtain w ws where "str_split c a = w # ws"
    using str_split_nonempty [of c a] by (cases "str_split c a") auto
  with Cons show ?case by simp
qed

lemma str_split_sep_free: "w \<in> set (str_split c s) \<Longrightarrow> c \<notin> set w"
  by (induction s arbitrary: w) (auto split: if_splits list.splits)

lemma str_join_split [simp]: "str_join c (str_split c s) = s"
proof (induction s)
  case Nil
  show ?case by simp
next
  case (Cons x s)
  obtain w ws where ws: "str_split c s = w # ws"
    using str_split_nonempty [of c s] by (cases "str_split c s") auto
  show ?case
  proof (cases "x = c")
    case True
    with Cons ws show ?thesis by simp
  next
    case False
    with Cons ws show ?thesis by (cases ws) auto
  qed
qed

lemma str_split_single: "c \<notin> set w \<Longrightarrow> str_split c w = [w]"
  by (induction w) auto

lemma str_split_join:
  "kp \<noteq> [] \<Longrightarrow> \<forall>w\<in>set kp. c \<notin> set w \<Longrightarrow> str_split c (str_join c kp) = kp"
proof (induction c kp rule: str_join.induct)
  case (1 sep)
  then show ?case by simp
next
  case (2 sep x)
  then show ?case by (simp add: str_split_single)
next
  case (3 sep x y ys)
  then show ?case by (simp add: str_split_append str_split_single)
qed

lemma str_split_inj: "str_split c a = str_split c b \<Longrightarrow> a = b"
  by (metis str_join_split)

lemma reduce_subscript_append:
  "reduce_subscript t (p @ q) =
     (case reduce_subscript t p of Inl e \<Rightarrow> Inl e | Inr t' \<Rightarrow> reduce_subscript t' q)"
  by (induction p arbitrary: t) (auto split: sum.splits)

lemma reduce_subscript_Attribute:
  "reduce_subscript (Attribute a) q = Inr x \<Longrightarrow> q = [] \<and> x = Attribute a"
  by (cases q) auto

lemma reduce_singleton_path:
  "reduce_subscript (singleton_path p a) q = Inr (Attribute b) \<longleftrightarrow> q = p \<and> b = a"
proof (induction p arbitrary: q)
  case Nil
  show ?case by (cases q) auto
next
  case (Cons k p)
  show ?case
  proof (cases q)
    case Nil
    then show ?thesis by simp
  next
    case (Cons k' q')
    with Cons.IH [of q'] show ?thesis by (auto split: if_splits)
  qed
qed

lemma map_of_append_new:
  "map_of d k = None \<Longrightarrow> map_of (d @ [(k, v)]) k' = (if k' = k then Some v else map_of d k')"
  by (simp add: map_add_def split: option.splits)

text \<open>What a successful write changes: the leaf at the written path, and no other leaf.\<close>

lemma store_set_leaf:
  "store_set p a t = Inr t' \<Longrightarrow>
     reduce_subscript t' q = Inr (Attribute b)
       \<longleftrightarrow> (q = p \<and> b = a) \<or> (q \<noteq> p \<and> reduce_subscript t q = Inr (Attribute b))"
proof (induction p arbitrary: t t' q)
  case Nil
  then obtain a0 where "t = Attribute a0" "t' = Attribute a"
    by (cases t) auto
  then show ?case by (cases q) auto
next
  case (Cons k p)
  from Cons.prems obtain d where t: "t = Namespace d" by (cases t) auto
  show ?case
  proof (cases "map_of d k")
    case None
    with Cons.prems t have t': "t' = Namespace (d @ [(k, singleton_path p a)])" by simp
    show ?thesis
    proof (cases q)
      case Nil
      then show ?thesis using t t' by simp
    next
      case (Cons k' q')
      show ?thesis
        unfolding Cons t t'
        using None reduce_singleton_path [of p a q' b]
        by (auto simp: map_of_append_new split: option.splits)
    qed
  next
    case (Some v)
    with Cons.prems t obtain v' where v': "store_set p a v = Inr v'"
      and t': "t' = Namespace (AList.update k v' d)"
      by (auto split: sum.splits)
    note IH = Cons.IH [OF v']
    show ?thesis
    proof (cases q)
      case Nil
      then show ?thesis using t t' by simp
    next
      case (Cons k' q')
      show ?thesis
        unfolding Cons t t'
        using Some IH [of q'] by (auto simp: update_conv' split: option.splits)
    qed
  qed
qed

lemma store_pop_leaf:
  "store_pop p t = Inr t' \<Longrightarrow>
     reduce_subscript t' q = Inr (Attribute b)
       \<longleftrightarrow> q \<noteq> p \<and> reduce_subscript t q = Inr (Attribute b)"
proof (induction p arbitrary: t t' q)
  case Nil
  then show ?case by (cases t) auto
next
  case (Cons k p)
  from Cons.prems obtain d where t: "t = Namespace d" by (cases t) auto
  from Cons.prems t obtain v where v: "map_of d k = Some v"
    by (auto split: option.splits)
  show ?case
  proof (cases "p = []")
    case True
    with Cons.prems t v obtain a0 where a0: "v = Attribute a0"
      and t': "t' = Namespace (AList.delete k d)"
      by (auto split: structure.splits)
    show ?thesis
    proof (cases q)
      case Nil
      then show ?thesis using t t' by simp
    next
      case (Cons k' q')
      show ?thesis
        unfolding Cons t t' True
        using v a0 by (cases q') (auto simp: delete_conv' split: option.splits)
    qed
  next
    case False
    with Cons.prems t v obtain v' where v': "store_pop p v = Inr v'"
      and t': "t' = Namespace (AList.update k v' d)"
      by (auto split: sum.splits)
    note IH = Cons.IH [OF v']
    show ?thesis
    proof (cases q)
      case Nil
      then show ?thesis using t t' by simp
    next
      case (Cons k' q')
      show ?thesis
        unfolding Cons t t'
        using v IH [of q'] by (auto simp: update_conv' split: option.splits)
    qed
  qed
qed

lemma list_all_update:
  "list_all Q d \<Longrightarrow> Q (k, v) \<Longrightarrow> list_all Q (AList.update k v d)"
  by (induction d) auto

lemma list_all_delete: "list_all Q d \<Longrightarrow> list_all Q (AList.delete k d)"
  by (induction d) auto

lemma map_of_list_all: "list_all Q d \<Longrightarrow> map_of d k = Some v \<Longrightarrow> Q (k, v)"
  by (auto simp: list_all_iff dest: map_of_SomeD)

lemma wf_singleton_path [simp]: "wf_structure (singleton_path p a)"
  by (induction p) auto

lemma slash_free_singleton_path:
  "\<forall>w\<in>set p. CHR ''/'' \<notin> set w \<Longrightarrow> slash_free (singleton_path p a)"
  by (induction p) auto

lemma store_set_wf:
  "store_set p a t = Inr t' \<Longrightarrow> wf_structure t \<Longrightarrow> wf_structure t'"
proof (induction p arbitrary: t t')
  case Nil
  then show ?case by (cases t) auto
next
  case (Cons k p)
  from Cons.prems obtain d where t: "t = Namespace d" by (cases t) auto
  have dist: "distinct (map fst d)" and all: "list_all (\<lambda>(k, v). wf_structure v) d"
    using Cons.prems(2) t by auto
  show ?case
  proof (cases "map_of d k")
    case None
    with Cons.prems t have t': "t' = Namespace (d @ [(k, singleton_path p a)])" by simp
    have "k \<notin> fst ` set d" using None by (simp add: map_of_eq_None_iff)
    with dist all show ?thesis unfolding t' by simp
  next
    case (Some v)
    with Cons.prems t obtain v' where v': "store_set p a v = Inr v'"
      and t': "t' = Namespace (AList.update k v' d)"
      by (auto split: sum.splits)
    have "wf_structure v" using map_of_list_all [OF all Some] by simp
    with Cons.IH [OF v'] have "wf_structure v'" .
    with all have "list_all (\<lambda>(k, v). wf_structure v) (AList.update k v' d)"
      by (intro list_all_update) auto
    with dist show ?thesis unfolding t' by (simp add: distinct_update)
  qed
qed

lemma store_set_slash_free:
  "store_set p a t = Inr t' \<Longrightarrow> slash_free t \<Longrightarrow> \<forall>w\<in>set p. CHR ''/'' \<notin> set w
     \<Longrightarrow> slash_free t'"
proof (induction p arbitrary: t t')
  case Nil
  then show ?case by (cases t) auto
next
  case (Cons k p)
  from Cons.prems obtain d where t: "t = Namespace d" by (cases t) auto
  have all: "list_all (\<lambda>(k, v). CHR ''/'' \<notin> set k \<and> slash_free v) d"
    using Cons.prems(2) t by simp
  have k: "CHR ''/'' \<notin> set k" and p: "\<forall>w\<in>set p. CHR ''/'' \<notin> set w"
    using Cons.prems(3) by auto
  show ?case
  proof (cases "map_of d k")
    case None
    with Cons.prems t have t': "t' = Namespace (d @ [(k, singleton_path p a)])" by simp
    show ?thesis unfolding t' using all k slash_free_singleton_path [OF p] by simp
  next
    case (Some v)
    with Cons.prems t obtain v' where v': "store_set p a v = Inr v'"
      and t': "t' = Namespace (AList.update k v' d)"
      by (auto split: sum.splits)
    have "slash_free v" using map_of_list_all [OF all Some] by simp
    with Cons.IH [OF v' _ p] have "slash_free v'" .
    with all k have "list_all (\<lambda>(k, v). CHR ''/'' \<notin> set k \<and> slash_free v) (AList.update k v' d)"
      by (intro list_all_update) auto
    then show ?thesis unfolding t' by simp
  qed
qed

lemma store_pop_wf:
  "store_pop p t = Inr t' \<Longrightarrow> wf_structure t \<Longrightarrow> wf_structure t'"
proof (induction p arbitrary: t t')
  case Nil
  then show ?case by (cases t) auto
next
  case (Cons k p)
  from Cons.prems obtain d where t: "t = Namespace d" by (cases t) auto
  have dist: "distinct (map fst d)" and all: "list_all (\<lambda>(k, v). wf_structure v) d"
    using Cons.prems(2) t by auto
  from Cons.prems t obtain v where v: "map_of d k = Some v"
    by (auto split: option.splits)
  show ?case
  proof (cases "p = []")
    case True
    with Cons.prems t v have t': "t' = Namespace (AList.delete k d)"
      by (auto split: structure.splits)
    show ?thesis unfolding t' using dist all by (simp add: distinct_delete list_all_delete)
  next
    case False
    with Cons.prems t v obtain v' where v': "store_pop p v = Inr v'"
      and t': "t' = Namespace (AList.update k v' d)"
      by (auto split: sum.splits)
    have "wf_structure v" using map_of_list_all [OF all v] by simp
    with Cons.IH [OF v'] have "wf_structure v'" .
    with all have "list_all (\<lambda>(k, v). wf_structure v) (AList.update k v' d)"
      by (intro list_all_update) auto
    with dist show ?thesis unfolding t' by (simp add: distinct_update)
  qed
qed

lemma store_pop_slash_free:
  "store_pop p t = Inr t' \<Longrightarrow> slash_free t \<Longrightarrow> slash_free t'"
proof (induction p arbitrary: t t')
  case Nil
  then show ?case by (cases t) auto
next
  case (Cons k p)
  from Cons.prems obtain d where t: "t = Namespace d" by (cases t) auto
  have all: "list_all (\<lambda>(k, v). CHR ''/'' \<notin> set k \<and> slash_free v) d"
    using Cons.prems(2) t by simp
  from Cons.prems t obtain v where v: "map_of d k = Some v"
    by (auto split: option.splits)
  show ?case
  proof (cases "p = []")
    case True
    with Cons.prems t v have t': "t' = Namespace (AList.delete k d)"
      by (auto split: structure.splits)
    show ?thesis unfolding t' using all by (simp add: list_all_delete)
  next
    case False
    with Cons.prems t v obtain v' where v': "store_pop p v = Inr v'"
      and t': "t' = Namespace (AList.update k v' d)"
      by (auto split: sum.splits)
    have kv: "CHR ''/'' \<notin> set k \<and> slash_free v" using map_of_list_all [OF all v] by simp
    with Cons.IH [OF v'] have "slash_free v'" by simp
    with all kv have "list_all (\<lambda>(k, v). CHR ''/'' \<notin> set k \<and> slash_free v) (AList.update k v' d)"
      by (intro list_all_update) auto
    then show ?thesis unfolding t' by simp
  qed
qed

lemma store_pop_succeeds:
  "reduce_subscript t p = Inr (Attribute a) \<Longrightarrow> p \<noteq> [] \<Longrightarrow> \<exists>t'. store_pop p t = Inr t'"
proof (induction p arbitrary: t)
  case Nil
  then show ?case by simp
next
  case (Cons k p)
  from Cons.prems obtain d where t: "t = Namespace d" by (cases t) auto
  from Cons.prems t obtain v where v: "map_of d k = Some v"
    and r: "reduce_subscript v p = Inr (Attribute a)"
    by (auto split: option.splits)
  show ?case
  proof (cases "p = []")
    case True
    with r have "v = Attribute a" by simp
    with t v True show ?thesis by simp
  next
    case False
    from Cons.IH [OF r False] obtain v' where "store_pop p v = Inr v'" by blast
    with t v False show ?thesis by simp
  qed
qed

lemma store_set_same:
  "reduce_subscript t p = Inr (Attribute a) \<Longrightarrow> store_set p a t = Inr t"
proof (induction p arbitrary: t)
  case Nil
  then show ?case by simp
next
  case (Cons k p)
  from Cons.prems obtain d where t: "t = Namespace d" by (cases t) auto
  from Cons.prems t obtain v where v: "map_of d k = Some v"
    and r: "reduce_subscript v p = Inr (Attribute a)"
    by (auto split: option.splits)
  from Cons.IH [OF r] have "store_set p a v = Inr v" .
  with t v show ?case by (simp add: update_triv)
qed

lemma reduce_subscript_slash_free:
  "reduce_subscript t p = Inr x \<Longrightarrow> slash_free t
     \<Longrightarrow> (\<forall>w\<in>set p. CHR ''/'' \<notin> set w) \<and> slash_free x"
proof (induction p arbitrary: t)
  case Nil
  then show ?case by simp
next
  case (Cons k p)
  from Cons.prems obtain d where t: "t = Namespace d" by (cases t) auto
  from Cons.prems t obtain v where v: "map_of d k = Some v"
    and r: "reduce_subscript v p = Inr x"
    by (auto split: option.splits)
  have all: "list_all (\<lambda>(k, v). CHR ''/'' \<notin> set k \<and> slash_free v) d"
    using Cons.prems(2) t by simp
  have kv: "CHR ''/'' \<notin> set k \<and> slash_free v" using map_of_list_all [OF all v] by simp
  with Cons.IH [OF r] show ?case by simp
qed

lemma dict_paths_set:
  assumes "wf_structure (Namespace d)"
  shows "set (dict_paths d None)
       = str_join (CHR ''/'') ` {kp. \<exists>a. reduce_subscript (Namespace d) kp = Inr (Attribute a)}"
proof -
  have "dict_paths d None = map (str_join (CHR ''/'')) (leaves_of (Namespace d))"
    unfolding dict_paths_leaves [of d None]
    by (rule map_cong [OF refl]) (simp add: rel_path_def)
  moreover have "set (leaves_of (Namespace d))
      = {kp. \<exists>a. reduce_subscript (Namespace d) kp = Inr (Attribute a)}"
    using leaves_of_iff [OF assms] by blast
  ultimately show ?thesis by simp
qed

text \<open>The names below a namespace are the names whose path ends at a leaf.\<close>

lemma namespace_leaves_iff:
  assumes "wf_store t"
  shows "namespace_leaves t ns
       = {name. \<exists>a. reduce_subscript t
            (str_split (CHR ''/'') ns @ str_split (CHR ''/'') name) = Inr (Attribute a)}"
proof (cases "reduce_subscript t (str_split (CHR ''/'') ns)")
  case (Inl e)
  then show ?thesis
    by (simp add: namespace_leaves_def get_full_model_names_from_exp_structure_def
          LOGGER_JOIN_CHAR_def reduce_subscript_append)
next
  case (Inr x)
  show ?thesis
  proof (cases x)
    case (Attribute a)
    have "reduce_subscript (Attribute a) (str_split (CHR ''/'') name) \<noteq> Inr y" for name y
      using reduce_subscript_Attribute [of a "str_split (CHR ''/'') name" y] by auto
    with Inr Attribute show ?thesis
      by (simp add: namespace_leaves_def get_full_model_names_from_exp_structure_def
            LOGGER_JOIN_CHAR_def reduce_subscript_append)
  next
    case (Namespace d)
    have wfd: "wf_structure (Namespace d)"
      using assms Inr Namespace reduce_subscript_wf unfolding wf_store_def by blast
    have sfd: "slash_free (Namespace d)"
      using assms Inr Namespace reduce_subscript_slash_free unfolding wf_store_def by blast
    have lhs: "namespace_leaves t ns = set (dict_paths d None)"
      using Inr Namespace
      by (simp add: namespace_leaves_def get_full_model_names_from_exp_structure_def
            LOGGER_JOIN_CHAR_def)
    have "str_join (CHR ''/'') ` {kp. \<exists>a. reduce_subscript (Namespace d) kp = Inr (Attribute a)}
        = {name. \<exists>a. reduce_subscript (Namespace d) (str_split (CHR ''/'') name) = Inr (Attribute a)}"
      (is "?A = ?B")
    proof (intro equalityI subsetI)
      fix name assume "name \<in> ?A"
      then obtain kp a where kp: "name = str_join (CHR ''/'') kp"
        and leaf: "reduce_subscript (Namespace d) kp = Inr (Attribute a)"
        by blast
      have ne: "kp \<noteq> []" using leaf by (cases kp) auto
      have "\<forall>w\<in>set kp. CHR ''/'' \<notin> set w"
        using reduce_subscript_slash_free [OF leaf sfd] by simp
      then have "str_split (CHR ''/'') name = kp"
        unfolding kp using ne by (intro str_split_join) auto
      with leaf show "name \<in> ?B" by auto
    next
      fix name assume "name \<in> ?B"
      then obtain a where
        "reduce_subscript (Namespace d) (str_split (CHR ''/'') name) = Inr (Attribute a)"
        by blast
      then have "str_join (CHR ''/'') (str_split (CHR ''/'') name) \<in> ?A" by blast
      then show "name \<in> ?A" by simp
    qed
    with lhs dict_paths_set [OF wfd] Inr Namespace show ?thesis
      by (simp add: reduce_subscript_append)
  qed
qed

lemma tree_ops_simps [simp]:
  "run_exists tree_ops path t =
     (Inr (case reduce_subscript t (str_split (CHR ''/'') path) of Inl _ \<Rightarrow> False | Inr _ \<Rightarrow> True), t)"
  "run_get_structure tree_ops t = (Inr t, t)"
  "run_upload tree_ops path file t = store_write path (FileAttr file) t"
  "run_assign tree_ops path v t = store_write path v t"
  "run_delete tree_ops path t =
     (case store_pop (str_split (CHR ''/'') path) t of Inl e \<Rightarrow> (Inl e, t) | Inr t' \<Rightarrow> (Inr (), t'))"
  by (simp_all add: tree_ops_def)

lemma store_write_Inr:
  "store_write path a t = (Inr u, t') \<longleftrightarrow> store_set (str_split (CHR ''/'') path) a t = Inr t'"
  by (auto simp: store_write_def split: sum.splits)

lemma store_write_Inl:
  "store_write path a t = (Inl e, t') \<longleftrightarrow> store_set (str_split (CHR ''/'') path) a t = Inl e \<and> t' = t"
  by (auto simp: store_write_def split: sum.splits)

lemma split_namespace_name:
  "str_split (CHR ''/'') (ns @ ''/'' @ name) = str_split (CHR ''/'') ns @ str_split (CHR ''/'') name"
  using str_split_append [of "CHR ''/''" ns name] by simp

lemma write_below_namespace:
  assumes "wf_store t"
      and "store_set (str_split (CHR ''/'') ns @ str_split (CHR ''/'') name) a t = Inr t'"
  shows "wf_store t' \<and> namespace_leaves t' ns = insert name (namespace_leaves t ns)"
proof -
  let ?p = "str_split (CHR ''/'') ns @ str_split (CHR ''/'') name"
  have "\<forall>w\<in>set ?p. CHR ''/'' \<notin> set w" by (auto dest: str_split_sep_free)
  then have wf': "wf_store t'"
    using assms store_set_wf store_set_slash_free unfolding wf_store_def by blast
  have "namespace_leaves t' ns = insert name (namespace_leaves t ns)"
    unfolding namespace_leaves_iff [OF wf'] namespace_leaves_iff [OF assms(1)]
      store_set_leaf [OF assms(2)]
    by (auto dest: str_split_inj)
  with wf' show ?thesis by simp
qed

lemma pop_below_namespace:
  assumes "wf_store t"
      and "store_pop (str_split (CHR ''/'') ns @ str_split (CHR ''/'') name) t = Inr t'"
  shows "wf_store t' \<and> namespace_leaves t' ns = namespace_leaves t ns - {name}"
proof -
  have wf': "wf_store t'"
    using assms store_pop_wf store_pop_slash_free unfolding wf_store_def by blast
  have "namespace_leaves t' ns = namespace_leaves t ns - {name}"
    unfolding namespace_leaves_iff [OF wf'] namespace_leaves_iff [OF assms(1)]
      store_pop_leaf [OF assms(2)]
    by (auto dest: str_split_inj)
  with wf' show ?thesis by simp
qed

lemma write_elsewhere:
  assumes "wf_store t"
      and "store_set (str_split (CHR ''/'') path) a t = Inr t'"
      and "\<And>x. str_split (CHR ''/'') path \<noteq> str_split (CHR ''/'') ns @ x"
  shows "wf_store t' \<and> namespace_leaves t' ns = namespace_leaves t ns"
proof -
  have "\<forall>w\<in>set (str_split (CHR ''/'') path). CHR ''/'' \<notin> set w"
    by (auto dest: str_split_sep_free)
  then have wf': "wf_store t'"
    using assms(1,2) store_set_wf store_set_slash_free unfolding wf_store_def by blast
  have "namespace_leaves t' ns = namespace_leaves t ns"
    unfolding namespace_leaves_iff [OF wf'] namespace_leaves_iff [OF assms(1)]
      store_set_leaf [OF assms(2)]
    using assms(3) [symmetric] by auto
  with wf' show ?thesis by simp
qed

lemma save_best_k_models_tree:
  "save_best_k_models tree_ops cb ns paths fn t = (Inr fn', t') \<Longrightarrow> wf_store t \<Longrightarrow>
     wf_store t'
     \<and> namespace_leaves t' ns = namespace_leaves t ns \<union> short_name cb ` set paths
     \<and> fn' = fn \<union> short_name cb ` set paths"
proof (induction paths arbitrary: fn t)
  case Nil
  then show ?case by simp
next
  case (Cons key keys)
  from Cons.prems(1) obtain name where g: "get_full_model_name key cb = Inr name"
    by (auto split: sum.splits)
  then have name: "name = short_name cb key" by (auto dest: get_full_model_name_Inr)
  from Cons.prems(1) g obtain t1 where
    up: "store_write (ns @ ''/'' @ name) (FileAttr key) t = (Inr (), t1)"
    and rec: "save_best_k_models tree_ops cb ns keys (insert name fn) t1 = (Inr fn', t')"
    by (auto split: sum.splits prod.splits)
  from up have "store_set (str_split (CHR ''/'') ns @ str_split (CHR ''/'') name) (FileAttr key) t
      = Inr t1"
    unfolding store_write_Inr split_namespace_name .
  from write_below_namespace [OF Cons.prems(2) this]
  have wf1: "wf_store t1" and l1: "namespace_leaves t1 ns = insert name (namespace_leaves t ns)"
    by simp_all
  from Cons.IH [OF rec wf1] l1 name show ?case by auto
qed

lemma drop_files_tree:
  "drop_files tree_ops ns fs t = (Inr u, t') \<Longrightarrow> wf_store t \<Longrightarrow>
     wf_store t' \<and> namespace_leaves t' ns = namespace_leaves t ns - set fs"
proof (induction fs arbitrary: t)
  case Nil
  then show ?case by simp
next
  case (Cons f fs)
  from Cons.prems(1) obtain t1 where
    del: "store_pop (str_split (CHR ''/'') (ns @ ''/'' @ f)) t = Inr t1"
    and rec: "drop_files tree_ops ns fs t1 = (Inr u, t')"
    by (auto split: sum.splits prod.splits)
  from pop_below_namespace [OF Cons.prems(2) del [unfolded split_namespace_name]]
  have wf1: "wf_store t1" and l1: "namespace_leaves t1 ns = namespace_leaves t ns - {f}"
    by simp_all
  from Cons.IH [OF rec wf1] l1 show ?case by auto
qed

lemma remove_old_models_tree:
  assumes "remove_old_models tree_ops ns fn t = (Inr u, t')" and "wf_store t"
  shows "wf_store t' \<and> namespace_leaves t' ns = namespace_leaves t ns \<inter> fn"
proof (cases "reduce_subscript t (str_split (CHR ''/'') ns)")
  case (Inl e)
  with assms(1) have "t' = t" by (simp add: remove_old_models_def)
  moreover have "namespace_leaves t ns = {}"
    using Inl by (simp add: namespace_leaves_def get_full_model_names_from_exp_structure_def
          LOGGER_JOIN_CHAR_def)
  ultimately show ?thesis using assms(2) by simp
next
  case (Inr x)
  with assms(1) obtain uploaded where
    names: "get_full_model_names_from_exp_structure t ns = Inr uploaded"
    and rec: "drop_files tree_ops ns (filter (\<lambda>name. name \<notin> fn) uploaded) t = (Inr u, t')"
    by (auto simp: remove_old_models_def split: sum.splits)
  have "namespace_leaves t ns = set uploaded"
    using names by (simp add: namespace_leaves_def)
  with drop_files_tree [OF rec assms(2)] show ?thesis by auto
qed

lemma split_prefixed:
  "str_split (CHR ''/'') (construct_path_with_prefix lg [key])
     = (if prefix lg \<noteq> [] then str_split (CHR ''/'') (prefix lg) else []) @ str_split (CHR ''/'') key"
  using str_split_append [of "CHR ''/''" "prefix lg" key]
  by (simp add: construct_path_with_prefix_def LOGGER_JOIN_CHAR_def)

lemma best_model_paths_elsewhere:
  "str_split (CHR ''/'') (construct_path_with_prefix lg [''model/best_model_path''])
     \<noteq> str_split (CHR ''/'') (construct_path_with_prefix lg [''model/checkpoints'']) @ x"
  "str_split (CHR ''/'') (construct_path_with_prefix lg [''model/best_model_score''])
     \<noteq> str_split (CHR ''/'') (construct_path_with_prefix lg [''model/checkpoints'']) @ x"
  unfolding split_prefixed by simp_all

lemma log_best_model_tree:
  assumes "log_best_model tree_ops lg cb t = (Inr u, t')" and "wf_store t"
  shows "wf_store t'
       \<and> namespace_leaves t' (construct_path_with_prefix lg [''model/checkpoints''])
         = namespace_leaves t (construct_path_with_prefix lg [''model/checkpoints''])"
proof -
  let ?ns = "construct_path_with_prefix lg [''model/checkpoints'']"
  let ?p1 = "construct_path_with_prefix lg [''model/best_model_path'']"
  let ?p2 = "construct_path_with_prefix lg [''model/best_model_score'']"
  obtain t1 where
    s1: "(if best_model_path cb \<noteq> [] then store_write ?p1 (StringAttr (best_model_path cb)) t
          else (Inr (), t)) = (Inr (), t1)"
    and s2: "(if score_logged cb then store_write ?p2 (FloatAttr (the (best_model_score cb))) t1
          else (Inr (), t1)) = (Inr u, t')"
    using assms(1) unfolding log_best_model_alt [of tree_ops]
    by (auto split: sum.splits prod.splits if_splits)
  have 1: "wf_store t1 \<and> namespace_leaves t1 ?ns = namespace_leaves t ?ns"
  proof (cases "best_model_path cb \<noteq> []")
    case True
    with s1 have "store_set (str_split (CHR ''/'') ?p1) (StringAttr (best_model_path cb)) t = Inr t1"
      by (simp add: store_write_Inr)
    from write_elsewhere [OF assms(2) this best_model_paths_elsewhere(1)] show ?thesis .
  next
    case False
    with s1 assms(2) show ?thesis by simp
  qed
  show ?thesis
  proof (cases "score_logged cb")
    case True
    with s2 have "store_set (str_split (CHR ''/'') ?p2) (FloatAttr (the (best_model_score cb))) t1
        = Inr t'"
      by (simp add: store_write_Inr)
    from write_elsewhere [OF _ this best_model_paths_elsewhere(2)] 1 show ?thesis by simp
  next
    case False
    with s2 1 show ?thesis by simp
  qed
qed

lemma after_save_checkpoint_tree:
  assumes "log_model_checkpoints lg"
      and "wf_store t"
      and "after_save_checkpoint tree_ops lg cb t = (Inr (), t')"
  shows "wf_store t'
       \<and> namespace_leaves t' (construct_path_with_prefix lg [''model/checkpoints''])
         = short_name cb ` set (supplied_paths cb)"
proof -
  let ?ns = "construct_path_with_prefix lg [''model/checkpoints'']"
  obtain fn t2 t3 where
    up: "save_best_k_models tree_ops cb ?ns (supplied_paths cb) {} t = (Inr fn, t2)"
    and rm: "remove_old_models tree_ops ?ns fn t2 = (Inr (), t3)"
    and lb: "log_best_model tree_ops lg cb t3 = (Inr (), t')"
    using assms(1,3) unfolding after_save_checkpoint_alt [of tree_ops]
    by (auto split: sum.splits prod.splits)
  from save_best_k_models_tree [OF up assms(2)]
  have wf2: "wf_store t2"
    and l2: "namespace_leaves t2 ?ns = namespace_leaves t ?ns \<union> short_name cb ` set (supplied_paths cb)"
    and fn: "fn = short_name cb ` set (supplied_paths cb)"
    by simp_all
  from remove_old_models_tree [OF rm wf2]
  have wf3: "wf_store t3" and l3: "namespace_leaves t3 ?ns = namespace_leaves t2 ?ns \<inter> fn"
    by simp_all
  from log_best_model_tree [OF lb wf3] l3 l2 fn show ?thesis by auto
qed

text \<open>
  The invariant holds of the empty run and is kept by every operation of the tree store,
  whether the operation succeeds or fails: it holds of every state the store can reach.
\<close>

lemma wf_store_empty: "wf_store (Namespace [])"
  by (simp add: wf_store_def)

lemma tree_ops_keep_wf_store:
  assumes "wf_store t"
  shows "wf_store (snd (run_exists tree_ops path t))"
    and "wf_store (snd (run_get_structure tree_ops t))"
    and "wf_store (snd (run_upload tree_ops path file t))"
    and "wf_store (snd (run_assign tree_ops path v t))"
    and "wf_store (snd (run_delete tree_ops path t))"
proof -
  show "wf_store (snd (run_exists tree_ops path t))"
    and "wf_store (snd (run_get_structure tree_ops t))"
    using assms by simp_all
  have w: "wf_store (snd (store_write path a t))" for a
  proof (cases "store_set (str_split (CHR ''/'') path) a t")
    case (Inl e)
    with assms show ?thesis by (simp add: store_write_def)
  next
    case (Inr t')
    have "\<forall>w\<in>set (str_split (CHR ''/'') path). CHR ''/'' \<notin> set w"
      by (auto dest: str_split_sep_free)
    with Inr assms have "wf_store t'"
      using store_set_wf store_set_slash_free unfolding wf_store_def by blast
    with Inr show ?thesis by (simp add: store_write_def)
  qed
  from w show "wf_store (snd (run_upload tree_ops path file t))"
    and "wf_store (snd (run_assign tree_ops path v t))"
    by simp_all
  show "wf_store (snd (run_delete tree_ops path t))"
  proof (cases "store_pop (str_split (CHR ''/'') path) t")
    case (Inl e)
    with assms show ?thesis by simp
  next
    case (Inr t')
    with assms have "wf_store t'"
      using store_pop_wf store_pop_slash_free unfolding wf_store_def by blast
    with Inr show ?thesis by simp
  qed
qed

subsection \<open>Synchronisation\<close>


lemma save_best_k_models_names:
  "save_best_k_models ops cb ns paths fn s = (Inr fn', s') \<Longrightarrow>
     fn' = fn \<union> short_name cb ` set paths \<and> list_all (valid_path cb) paths"
proof (induction paths arbitrary: fn s)
  case Nil
  then show ?case by simp
next
  case (Cons key keys)
  from Cons.prems obtain name s1 where g: "get_full_model_name key cb = Inr name"
    and rec: "save_best_k_models ops cb ns keys (insert name fn) s1 = (Inr fn', s')"
    by (auto split: sum.splits prod.splits)
  from g have "name = short_name cb key" and "valid_path cb key"
    by (auto dest: get_full_model_name_Inr)
  with Cons.IH [OF rec] show ?case by auto
qed

text \<open>
  C1 as the code has it: when \<open>log_model_checkpoints\<close> is true and the call returns (so that
  every supplied path is valid and no operation of the run has failed), the leaves below the
  checkpoints namespace are exactly the short names of the supplied paths: every desired name
  is a leaf, and no other name is. The run is the tree store, in a state that is a well-formed
  nested dict.
\<close>

theorem checkpoints_synchronized:
  assumes "log_model_checkpoints lg"
      and "wf_store t"
      and "after_save_checkpoint tree_ops lg cb t = (Inr (), t')"
  shows "namespace_leaves t' (construct_path_with_prefix lg [''model/checkpoints''])
           = short_name cb ` set (supplied_paths cb)
       \<and> list_all (valid_path cb) (supplied_paths cb)
       \<and> wf_store t'"
proof -
  obtain fn t2 where
    "save_best_k_models tree_ops cb (construct_path_with_prefix lg [''model/checkpoints''])
       (supplied_paths cb) {} t = (Inr fn, t2)"
    using assms(1,3) unfolding after_save_checkpoint_alt [of tree_ops]
    by (auto split: sum.splits prod.splits)
  then have "list_all (valid_path cb) (supplied_paths cb)"
    by (auto dest: save_best_k_models_names)
  with after_save_checkpoint_tree [OF assms] show ?thesis by simp
qed

theorem checkpoints_synchronized_witness:
  "log_model_checkpoints \<lparr>log_model_checkpoints = True, prefix = ''training''\<rparr>
   \<and> wf_store (Namespace [(''training'', Namespace [(''model'', Namespace [(''checkpoints'',
        Namespace [(''e1.pt'', Attribute (FileAttr ''/ckpt/e1.pt'')),
                   (''e2.pt'', Attribute (FileAttr ''/ckpt/e2.pt'')),
                   (''e3.pt'', Attribute (FileAttr ''/ckpt/e3.pt''))])])])])
   \<and> after_save_checkpoint tree_ops \<lparr>log_model_checkpoints = True, prefix = ''training''\<rparr>
       \<lparr>dirpath = ''/ckpt'', last_model_path = '''',
        best_k_models = [(''/ckpt/e3.pt'', 9 / 10), (''/ckpt/e4.pt'', 19 / 20)],
        best_model_path = ''/ckpt/e4.pt'', best_model_score = Some (19 / 20)\<rparr>
       (Namespace [(''training'', Namespace [(''model'', Namespace [(''checkpoints'',
        Namespace [(''e1.pt'', Attribute (FileAttr ''/ckpt/e1.pt'')),
                   (''e2.pt'', Attribute (FileAttr ''/ckpt/e2.pt'')),
                   (''e3.pt'', Attribute (FileAttr ''/ckpt/e3.pt''))])])])])
     = (Inr (),
        Namespace [(''training'', Namespace [(''model'', Namespace [(''checkpoints'',
          Namespace [(''e3.pt'', Attribute (FileAttr ''/ckpt/e3.pt'')),
                     (''e4.pt'', Attribute (FileAttr ''/ckpt/e4.pt''))]),
          (''best_model_path'', Attribute (StringAttr ''/ckpt/e4.pt'')),
          (''best_model_score'', Attribute (FloatAttr (19 / 20)))])])])
   \<and> namespace_leaves
        (Namespace [(''training'', Namespace [(''model'', Namespace [(''checkpoints'',
          Namespace [(''e3.pt'', Attribute (FileAttr ''/ckpt/e3.pt'')),
                     (''e4.pt'', Attribute (FileAttr ''/ckpt/e4.pt''))]),
          (''best_model_path'', Attribute (StringAttr ''/ckpt/e4.pt'')),
          (''best_model_score'', Attribute (FloatAttr (19 / 20)))])])])
        ''training/model/checkpoints'' = {''e3.pt'', ''e4.pt''}"
proof -
  let ?lg = "\<lparr>log_model_checkpoints = True, prefix = ''training''\<rparr>"
  let ?cb = "\<lparr>dirpath = ''/ckpt'', last_model_path = '''',
        best_k_models = [(''/ckpt/e3.pt'', 9 / 10), (''/ckpt/e4.pt'', 19 / 20)],
        best_model_path = ''/ckpt/e4.pt'', best_model_score = Some (19 / 20)\<rparr>"
  let ?t = "Namespace [(''training'', Namespace [(''model'', Namespace [(''checkpoints'',
        Namespace [(''e1.pt'', Attribute (FileAttr ''/ckpt/e1.pt'')),
                   (''e2.pt'', Attribute (FileAttr ''/ckpt/e2.pt'')),
                   (''e3.pt'', Attribute (FileAttr ''/ckpt/e3.pt''))])])])]"
  let ?t' = "Namespace [(''training'', Namespace [(''model'', Namespace [(''checkpoints'',
          Namespace [(''e3.pt'', Attribute (FileAttr ''/ckpt/e3.pt'')),
                     (''e4.pt'', Attribute (FileAttr ''/ckpt/e4.pt''))]),
          (''best_model_path'', Attribute (StringAttr ''/ckpt/e4.pt'')),
          (''best_model_score'', Attribute (FloatAttr (19 / 20)))])])]"
  have h1: "log_model_checkpoints ?lg" by simp
  have h2: "wf_store ?t" by (simp add: wf_store_def)
  have run: "after_save_checkpoint tree_ops ?lg ?cb ?t = (Inr (), ?t')"
    by (simp add: run_defs)
  have ns: "construct_path_with_prefix ?lg [''model/checkpoints''] = ''training/model/checkpoints''"
    by (simp add: construct_path_with_prefix_def LOGGER_JOIN_CHAR_def)
  have names: "short_name ?cb ` set (supplied_paths ?cb) = {''e3.pt'', ''e4.pt''}"
    by (simp add: short_name_def supplied_paths_def)
  from checkpoints_synchronized [OF h1 h2 run]
  have "namespace_leaves ?t' ''training/model/checkpoints'' = {''e3.pt'', ''e4.pt''}"
    unfolding ns names by simp
  with h1 h2 run show ?thesis by blast
qed

text \<open>
  C1 as stated fails: it speaks of every call, and a call with \<open>log_model_checkpoints\<close> false
  returns at once. Here the last checkpoint is valid, no operation of the run fails (none is
  made), and after the call the namespace has no leaf, while the desired set is \<open>{e5.pt}\<close>.
\<close>

theorem not_synchronized_when_disabled_counterexample:
  "list_all (valid_path \<lparr>dirpath = ''/ckpt'', last_model_path = ''/ckpt/e5.pt'',
        best_k_models = [], best_model_path = '''', best_model_score = None\<rparr>)
     (supplied_paths \<lparr>dirpath = ''/ckpt'', last_model_path = ''/ckpt/e5.pt'',
        best_k_models = [], best_model_path = '''', best_model_score = None\<rparr>)
   \<and> after_save_checkpoint (traced tree_ops) \<lparr>log_model_checkpoints = False, prefix = ''training''\<rparr>
       \<lparr>dirpath = ''/ckpt'', last_model_path = ''/ckpt/e5.pt'',
        best_k_models = [], best_model_path = '''', best_model_score = None\<rparr>
       (Namespace [], [])
     = (Inr (), (Namespace [], []))
   \<and> namespace_leaves (Namespace []) ''training/model/checkpoints'' = {}
   \<and> short_name \<lparr>dirpath = ''/ckpt'', last_model_path = ''/ckpt/e5.pt'',
        best_k_models = [], best_model_path = '''', best_model_score = None\<rparr> `
       set (supplied_paths \<lparr>dirpath = ''/ckpt'', last_model_path = ''/ckpt/e5.pt'',
        best_k_models = [], best_model_path = '''', best_model_score = None\<rparr>) = {''e5.pt''}"
  by (simp add: run_defs namespace_leaves_def valid_path_def supplied_paths_def short_name_def)

subsection \<open>An empty desired set, and duplicates\<close>






subsection \<open>A second call\<close>

lemma valid_path_eq: "valid_path cb p \<Longrightarrow> p = dirpath cb @ ''/'' @ short_name cb p"
  unfolding valid_path_def short_name_def startswith_def
  by (metis append_take_drop_id append.assoc)

lemma same_place_same_path:
  assumes "valid_path cb p" and "valid_path cb key"
      and "str_split (CHR ''/'') (ns @ ''/'' @ short_name cb p)
         = str_split (CHR ''/'') (ns @ ''/'' @ short_name cb key)"
  shows "p = key"
proof -
  from assms(3) have "ns @ ''/'' @ short_name cb p = ns @ ''/'' @ short_name cb key"
    by (rule str_split_inj)
  then have "short_name cb p = short_name cb key" by simp
  with valid_path_eq [OF assms(1)] valid_path_eq [OF assms(2)] show ?thesis by simp
qed

lemma upload_keeps_file:
  assumes "store_write (ns @ ''/'' @ short_name cb key) (FileAttr key) t = (r, t')"
      and "valid_path cb p" and "valid_path cb key" and "holds_file cb ns t p"
  shows "holds_file cb ns t' p"
proof (cases r)
  case (Inl e)
  with assms(1,4) show ?thesis by (simp add: store_write_Inl)
next
  case (Inr u)
  with assms(1) have
    set: "store_set (str_split (CHR ''/'') (ns @ ''/'' @ short_name cb key)) (FileAttr key) t = Inr t'"
    by (simp add: store_write_Inr)
  show ?thesis
    unfolding holds_file_def store_set_leaf [OF set]
    using assms(4) same_place_same_path [OF assms(2,3)]
    by (auto simp: holds_file_def)
qed

lemma upload_holds_file:
  assumes "store_write (ns @ ''/'' @ short_name cb key) (FileAttr key) t = (Inr u, t')"
  shows "holds_file cb ns t' key"
proof -
  from assms have
    set: "store_set (str_split (CHR ''/'') (ns @ ''/'' @ short_name cb key)) (FileAttr key) t = Inr t'"
    by (simp add: store_write_Inr)
  show ?thesis unfolding holds_file_def store_set_leaf [OF set] by simp
qed

lemma uploads_keep_file:
  "save_best_k_models tree_ops cb ns paths fn t = (r, t') \<Longrightarrow> valid_path cb p
     \<Longrightarrow> holds_file cb ns t p \<Longrightarrow> holds_file cb ns t' p"
proof (induction paths arbitrary: fn t)
  case Nil
  then show ?case by simp
next
  case (Cons key keys)
  show ?case
  proof (cases "get_full_model_name key cb")
    case (Inl e)
    with Cons.prems show ?thesis by simp
  next
    case (Inr name)
    then have name: "name = short_name cb key" and valid: "valid_path cb key"
      by (auto dest: get_full_model_name_Inr)
    obtain r1 t1 where up: "store_write (ns @ ''/'' @ short_name cb key) (FileAttr key) t = (r1, t1)"
      by (metis surj_pair)
    have h1: "holds_file cb ns t1 p"
      using upload_keeps_file [OF up Cons.prems(2) valid Cons.prems(3)] .
    show ?thesis
    proof (cases r1)
      case (Inl e)
      with Cons.prems(1) Inr name up have "t' = t1" by simp
      with h1 show ?thesis by simp
    next
      case (Inr u)
      with Cons.prems(1) \<open>get_full_model_name key cb = Inr name\<close> name up
      have "save_best_k_models tree_ops cb ns keys (insert name fn) t1 = (r, t')" by simp
      from Cons.IH [OF this Cons.prems(2) h1] show ?thesis .
    qed
  qed
qed

lemma uploads_fixed_point:
  "save_best_k_models tree_ops cb ns paths fn t = (r, t')
     \<Longrightarrow> save_best_k_models tree_ops cb ns paths fn t' = (r, t')"
proof (induction paths arbitrary: fn t)
  case Nil
  then show ?case by simp
next
  case (Cons key keys)
  show ?case
  proof (cases "get_full_model_name key cb")
    case (Inl e)
    with Cons.prems show ?thesis by simp
  next
    case (Inr name)
    then have name: "name = short_name cb key" and valid: "valid_path cb key"
      by (auto dest: get_full_model_name_Inr)
    obtain r1 t1 where up: "store_write (ns @ ''/'' @ short_name cb key) (FileAttr key) t = (r1, t1)"
      by (metis surj_pair)
    show ?thesis
    proof (cases r1)
      case (Inl e)
      with Cons.prems Inr name up have res: "r = Inl e" "t' = t1"
        by simp_all
      from up Inl have "t1 = t" by (simp add: store_write_Inl)
      with res Inr name up Inl show ?thesis by simp
    next
      case (Inr u)
      with Cons.prems \<open>get_full_model_name key cb = Inr name\<close> name up
      have rec: "save_best_k_models tree_ops cb ns keys (insert name fn) t1 = (r, t')" by simp
      have "holds_file cb ns t1 key"
        using up Inr upload_holds_file by blast
      from uploads_keep_file [OF rec valid this]
      have "store_write (ns @ ''/'' @ short_name cb key) (FileAttr key) t' = (Inr (), t')"
        unfolding holds_file_def store_write_Inr by (rule store_set_same)
      with Cons.IH [OF rec] \<open>get_full_model_name key cb = Inr name\<close> name show ?thesis by simp
    qed
  qed
qed

lemma uploads_hold_files:
  "save_best_k_models tree_ops cb ns paths fn t = (Inr fn', t')
     \<Longrightarrow> \<forall>p\<in>set paths. holds_file cb ns t' p"
proof (induction paths arbitrary: fn t)
  case Nil
  then show ?case by simp
next
  case (Cons key keys)
  from Cons.prems obtain name where g: "get_full_model_name key cb = Inr name"
    by (auto split: sum.splits)
  then have name: "name = short_name cb key" and valid: "valid_path cb key"
    by (auto dest: get_full_model_name_Inr)
  from Cons.prems g name obtain t1 where
    up: "store_write (ns @ ''/'' @ short_name cb key) (FileAttr key) t = (Inr (), t1)"
    and rec: "save_best_k_models tree_ops cb ns keys (insert name fn) t1 = (Inr fn', t')"
    by (auto split: sum.splits prod.splits)
  have "holds_file cb ns t' key"
    using uploads_keep_file [OF rec valid upload_holds_file [OF up]] .
  with Cons.IH [OF rec] show ?case by simp
qed

lemma uploads_replay:
  "\<forall>p\<in>set paths. valid_path cb p \<and> holds_file cb ns t p
     \<Longrightarrow> save_best_k_models tree_ops cb ns paths fn t = (Inr (fn \<union> short_name cb ` set paths), t)"
proof (induction paths arbitrary: fn)
  case Nil
  show ?case by simp
next
  case (Cons key keys)
  then have valid: "valid_path cb key" and h: "holds_file cb ns t key" by simp_all
  have "store_write (ns @ ''/'' @ short_name cb key) (FileAttr key) t = (Inr (), t)"
    using h unfolding holds_file_def store_write_Inr by (rule store_set_same)
  with Cons get_full_model_name_valid [OF valid] show ?case by simp
qed

lemma drop_files_leaf:
  "drop_files tree_ops ns fs t = (Inr u, t') \<Longrightarrow>
     reduce_subscript t' q = Inr (Attribute b)
       \<longleftrightarrow> (\<forall>f\<in>set fs. q \<noteq> str_split (CHR ''/'') (ns @ ''/'' @ f))
           \<and> reduce_subscript t q = Inr (Attribute b)"
proof (induction fs arbitrary: t)
  case Nil
  then show ?case by simp
next
  case (Cons f fs)
  from Cons.prems obtain t1 where
    del: "store_pop (str_split (CHR ''/'') (ns @ ''/'' @ f)) t = Inr t1"
    and rec: "drop_files tree_ops ns fs t1 = (Inr u, t')"
    by (auto split: sum.splits prod.splits)
  show ?case
    unfolding Cons.IH [OF rec] store_pop_leaf [OF del] by auto
qed

lemma drop_files_succeeds:
  "wf_store t \<Longrightarrow> distinct fs \<Longrightarrow> set fs \<subseteq> namespace_leaves t ns
     \<Longrightarrow> \<exists>t'. drop_files tree_ops ns fs t = (Inr (), t')"
proof (induction fs arbitrary: t)
  case Nil
  show ?case by simp
next
  case (Cons f fs)
  from Cons.prems(3) have "f \<in> namespace_leaves t ns" by simp
  then obtain a where
    "reduce_subscript t (str_split (CHR ''/'') ns @ str_split (CHR ''/'') f) = Inr (Attribute a)"
    unfolding namespace_leaves_iff [OF Cons.prems(1)] by blast
  from store_pop_succeeds [OF this] obtain t1 where
    del: "store_pop (str_split (CHR ''/'') ns @ str_split (CHR ''/'') f) t = Inr t1"
    by auto
  from pop_below_namespace [OF Cons.prems(1) del]
  have wf1: "wf_store t1" and l1: "namespace_leaves t1 ns = namespace_leaves t ns - {f}"
    by simp_all
  have "set fs \<subseteq> namespace_leaves t1 ns"
    using Cons.prems(2,3) l1 by auto
  from Cons.IH [OF wf1 _ this] Cons.prems(2) obtain t' where
    "drop_files tree_ops ns fs t1 = (Inr (), t')" by auto
  with del show ?case by (simp add: str_split_append)
qed

lemma get_full_model_names_distinct:
  "get_full_model_names_from_exp_structure t ns = Inr names \<Longrightarrow> distinct names"
  by (auto simp: get_full_model_names_from_exp_structure_def Let_def
           split: sum.splits structure.splits)

text \<open>What ``remove old models'' does on the tree store, whatever its outcome.\<close>

lemma remove_old_models_cases:
  assumes "wf_store t" and "remove_old_models tree_ops ns fn t = (r, t')"
  shows "(r = Inl AttributeError \<and> t' = t
            \<and> (\<exists>a. reduce_subscript t (str_split (CHR ''/'') ns) = Inr (Attribute a)))
       \<or> (\<exists>fs. r = Inr () \<and> drop_files tree_ops ns fs t = (Inr (), t') \<and> set fs \<inter> fn = {}
            \<and> (\<forall>a. reduce_subscript t (str_split (CHR ''/'') ns) \<noteq> Inr (Attribute a)))"
proof (cases "reduce_subscript t (str_split (CHR ''/'') ns)")
  case (Inl e)
  with assms(2) have "r = Inr ()" "t' = t" by (simp_all add: remove_old_models_def)
  then have "drop_files tree_ops ns [] t = (Inr (), t')" by simp
  with \<open>r = Inr ()\<close> Inl show ?thesis by (intro disjI2 exI [of _ "[]"]) simp
next
  case (Inr x)
  show ?thesis
  proof (cases x)
    case (Attribute a)
    with assms(2) Inr show ?thesis
      by (simp add: remove_old_models_def get_full_model_names_from_exp_structure_def
            LOGGER_JOIN_CHAR_def)
  next
    case (Namespace d)
    then obtain uploaded where
      names: "get_full_model_names_from_exp_structure t ns = Inr uploaded"
      using Inr by (simp add: get_full_model_names_from_exp_structure_def LOGGER_JOIN_CHAR_def)
    let ?fs = "filter (\<lambda>name. name \<notin> fn) uploaded"
    from assms(2) Inr names have run: "drop_files tree_ops ns ?fs t = (r, t')"
      by (simp add: remove_old_models_def)
    have "set uploaded = namespace_leaves t ns"
      using names by (simp add: namespace_leaves_def)
    then have "set ?fs \<subseteq> namespace_leaves t ns" by auto
    moreover have "distinct ?fs"
      using get_full_model_names_distinct [OF names] by simp
    ultimately obtain t'' where "drop_files tree_ops ns ?fs t = (Inr (), t'')"
      using drop_files_succeeds [OF assms(1)] by blast
    with run have "r = Inr ()" and "drop_files tree_ops ns ?fs t = (Inr (), t')" by simp_all
    moreover have "set ?fs \<inter> fn = {}" by auto
    ultimately show ?thesis using Inr Namespace by (intro disjI2 exI [of _ ?fs]) simp
  qed
qed

lemma remove_old_models_noop:
  assumes "wf_store t" and "namespace_leaves t ns \<subseteq> fn"
      and "\<forall>a. reduce_subscript t (str_split (CHR ''/'') ns) \<noteq> Inr (Attribute a)"
  shows "remove_old_models tree_ops ns fn t = (Inr (), t)"
proof (cases "reduce_subscript t (str_split (CHR ''/'') ns)")
  case (Inl e)
  then show ?thesis by (simp add: remove_old_models_def)
next
  case (Inr x)
  with assms(3) obtain d where "x = Namespace d" by (cases x) auto
  with Inr obtain uploaded where
    names: "get_full_model_names_from_exp_structure t ns = Inr uploaded"
    by (simp add: get_full_model_names_from_exp_structure_def LOGGER_JOIN_CHAR_def)
  then have "set uploaded = namespace_leaves t ns"
    by (simp add: namespace_leaves_def)
  with assms(2) have "filter (\<lambda>name. name \<notin> fn) uploaded = []"
    by (auto simp: filter_empty_conv)
  with Inr names show ?thesis by (simp add: remove_old_models_def)
qed

lemma best_model_paths_differ:
  "str_split (CHR ''/'') (construct_path_with_prefix lg [''model/best_model_path''])
     \<noteq> str_split (CHR ''/'') (construct_path_with_prefix lg [''model/best_model_score''])"
  unfolding split_prefixed by simp

text \<open>What a write does to the leaves, whatever its outcome.\<close>

lemma store_write_leaf:
  assumes "store_write path v t = (r, t')"
      and "q \<noteq> str_split (CHR ''/'') path"
  shows "reduce_subscript t' q = Inr (Attribute b) \<longleftrightarrow> reduce_subscript t q = Inr (Attribute b)"
proof (cases r)
  case (Inl e)
  with assms(1) show ?thesis by (simp add: store_write_Inl)
next
  case (Inr u)
  with assms(1) have "store_set (str_split (CHR ''/'') path) v t = Inr t'"
    by (simp add: store_write_Inr)
  from store_set_leaf [OF this] assms(2) show ?thesis by simp
qed

lemma store_write_wf:
  assumes "store_write path v t = (r, t')" and "wf_store t"
  shows "wf_store t'"
proof (cases r)
  case (Inl e)
  with assms show ?thesis by (simp add: store_write_Inl)
next
  case (Inr u)
  with assms(1) have set: "store_set (str_split (CHR ''/'') path) v t = Inr t'"
    by (simp add: store_write_Inr)
  have "\<forall>w\<in>set (str_split (CHR ''/'') path). CHR ''/'' \<notin> set w"
    by (auto dest: str_split_sep_free)
  with set assms(2) show ?thesis
    using store_set_wf store_set_slash_free unfolding wf_store_def by blast
qed

lemma store_write_fixed_point:
  assumes "store_write path v t = (r, t')"
  shows "store_write path v t' = (r, t')"
proof (cases r)
  case (Inl e)
  with assms show ?thesis by (simp add: store_write_Inl)
next
  case (Inr u)
  with assms have set: "store_set (str_split (CHR ''/'') path) v t = Inr t'"
    by (simp add: store_write_Inr)
  have "reduce_subscript t' (str_split (CHR ''/'') path) = Inr (Attribute v)"
    unfolding store_set_leaf [OF set] by simp
  from store_set_same [OF this] Inr show ?thesis by (simp add: store_write_Inr)
qed

lemma log_best_model_steps:
  assumes "log_best_model tree_ops lg cb t = (r, t')"
  obtains r1 ta where
    "(if best_model_path cb \<noteq> []
      then store_write (construct_path_with_prefix lg [''model/best_model_path''])
             (StringAttr (best_model_path cb)) t
      else (Inr (), t)) = (r1, ta)"
    and "(\<exists>e. r1 = Inl e \<and> r = Inl e \<and> t' = ta)
       \<or> ((\<exists>u. r1 = Inr u)
           \<and> (if score_logged cb
               then store_write (construct_path_with_prefix lg [''model/best_model_score''])
                      (FloatAttr (the (best_model_score cb))) ta
               else (Inr (), ta)) = (r, t'))"
proof -
  obtain r1 ta where 1: "(if best_model_path cb \<noteq> []
      then store_write (construct_path_with_prefix lg [''model/best_model_path''])
             (StringAttr (best_model_path cb)) t
      else (Inr (), t)) = (r1, ta)"
    by (metis surj_pair)
  show thesis
  proof (rule that [OF 1])
    show "(\<exists>e. r1 = Inl e \<and> r = Inl e \<and> t' = ta)
       \<or> ((\<exists>u. r1 = Inr u)
           \<and> (if score_logged cb
               then store_write (construct_path_with_prefix lg [''model/best_model_score''])
                      (FloatAttr (the (best_model_score cb))) ta
               else (Inr (), ta)) = (r, t'))"
      using assms 1 unfolding log_best_model_alt [of tree_ops] tree_ops_simps
      by (cases r1) (auto split: if_splits)
  qed
qed

lemma opt_write_leaf:
  assumes "(if c then store_write path v t else (Inr (), t)) = (r, t')"
      and "q \<noteq> str_split (CHR ''/'') path"
  shows "reduce_subscript t' q = Inr (Attribute b) \<longleftrightarrow> reduce_subscript t q = Inr (Attribute b)"
  using assms store_write_leaf [of path v t r t' q b] by (cases c) auto

lemma opt_write_wf:
  assumes "(if c then store_write path v t else (Inr (), t)) = (r, t')" and "wf_store t"
  shows "wf_store t'"
  using assms store_write_wf [of path v t r t'] by (cases c) auto

lemma opt_write_fixed_point:
  assumes "(if c then store_write path v t else (Inr (), t)) = (r, t')"
  shows "(if c then store_write path v t' else (Inr (), t')) = (r, t')"
  using assms store_write_fixed_point [of path v t r t'] by (cases c) auto

text \<open>What ``log best model path and score'' does on the tree store, whatever its outcome.\<close>

lemma log_best_model_any:
  assumes "log_best_model tree_ops lg cb t = (r, t')" and "wf_store t"
  shows "wf_store t'"
    and "q \<noteq> str_split (CHR ''/'') (construct_path_with_prefix lg [''model/best_model_path''])
       \<Longrightarrow> q \<noteq> str_split (CHR ''/'') (construct_path_with_prefix lg [''model/best_model_score''])
       \<Longrightarrow> reduce_subscript t' q = Inr (Attribute b) \<longleftrightarrow> reduce_subscript t q = Inr (Attribute b)"
proof -
  from assms(1) obtain r1 ta where
    1: "(if best_model_path cb \<noteq> []
      then store_write (construct_path_with_prefix lg [''model/best_model_path''])
             (StringAttr (best_model_path cb)) t
      else (Inr (), t)) = (r1, ta)"
    and 2: "(\<exists>e. r1 = Inl e \<and> r = Inl e \<and> t' = ta)
       \<or> ((\<exists>u. r1 = Inr u)
           \<and> (if score_logged cb
               then store_write (construct_path_with_prefix lg [''model/best_model_score''])
                      (FloatAttr (the (best_model_score cb))) ta
               else (Inr (), ta)) = (r, t'))"
    by (rule log_best_model_steps)
  have wfa: "wf_store ta" using opt_write_wf [OF 1 assms(2)] .
  from 2 wfa show "wf_store t'"
    by (auto dest: opt_write_wf)
  assume q1: "q \<noteq> str_split (CHR ''/'') (construct_path_with_prefix lg [''model/best_model_path''])"
    and q2: "q \<noteq> str_split (CHR ''/'') (construct_path_with_prefix lg [''model/best_model_score''])"
  have a: "reduce_subscript ta q = Inr (Attribute b) \<longleftrightarrow> reduce_subscript t q = Inr (Attribute b)"
    using opt_write_leaf [OF 1 q1] .
  from 2 show "reduce_subscript t' q = Inr (Attribute b) \<longleftrightarrow> reduce_subscript t q = Inr (Attribute b)"
  proof
    assume "\<exists>e. r1 = Inl e \<and> r = Inl e \<and> t' = ta"
    with a show ?thesis by auto
  next
    assume "(\<exists>u. r1 = Inr u)
           \<and> (if score_logged cb
               then store_write (construct_path_with_prefix lg [''model/best_model_score''])
                      (FloatAttr (the (best_model_score cb))) ta
               else (Inr (), ta)) = (r, t')"
    then have "reduce_subscript t' q = Inr (Attribute b) \<longleftrightarrow> reduce_subscript ta q = Inr (Attribute b)"
      using opt_write_leaf [OF _ q2] by blast
    with a show ?thesis by simp
  qed
qed

lemma log_best_model_fixed_point:
  assumes "log_best_model tree_ops lg cb t = (r, t')"
  shows "log_best_model tree_ops lg cb t' = (r, t')"
proof -
  let ?p1 = "construct_path_with_prefix lg [''model/best_model_path'']"
  let ?v1 = "StringAttr (best_model_path cb)"
  let ?p2 = "construct_path_with_prefix lg [''model/best_model_score'']"
  let ?v2 = "FloatAttr (the (best_model_score cb))"
  from assms obtain r1 ta where
    1: "(if best_model_path cb \<noteq> [] then store_write ?p1 ?v1 t else (Inr (), t)) = (r1, ta)"
    and 2: "(\<exists>e. r1 = Inl e \<and> r = Inl e \<and> t' = ta)
       \<or> ((\<exists>u. r1 = Inr u)
           \<and> (if score_logged cb then store_write ?p2 ?v2 ta else (Inr (), ta)) = (r, t'))"
    by (rule log_best_model_steps)
  from 2 show ?thesis
  proof
    assume "\<exists>e. r1 = Inl e \<and> r = Inl e \<and> t' = ta"
    then obtain e where e: "r1 = Inl e" "r = Inl e" "t' = ta" by blast
    have f: "(if best_model_path cb \<noteq> [] then store_write ?p1 ?v1 t' else (Inr (), t'))
        = (Inl e, t')"
      using opt_write_fixed_point [OF 1] e by (auto split: if_splits)
    show ?thesis
      unfolding log_best_model_alt [of tree_ops] tree_ops_simps f using e(2) by simp
  next
    assume "(\<exists>u. r1 = Inr u)
           \<and> (if score_logged cb then store_write ?p2 ?v2 ta else (Inr (), ta)) = (r, t')"
    then obtain u where u: "r1 = Inr u"
      and s2: "(if score_logged cb then store_write ?p2 ?v2 ta else (Inr (), ta)) = (r, t')"
      by blast
    have first: "(if best_model_path cb \<noteq> [] then store_write ?p1 ?v1 t' else (Inr (), t'))
        = (Inr (), t')"
    proof (cases "best_model_path cb \<noteq> []")
      case False
      then show ?thesis by simp
    next
      case True
      with 1 u have "store_set (str_split (CHR ''/'') ?p1) ?v1 t = Inr ta"
        by (simp add: store_write_Inr)
      from store_set_leaf [OF this]
      have "reduce_subscript ta (str_split (CHR ''/'') ?p1) = Inr (Attribute ?v1)" by simp
      then have "reduce_subscript t' (str_split (CHR ''/'') ?p1) = Inr (Attribute ?v1)"
        using opt_write_leaf [OF s2 best_model_paths_differ] by simp
      from store_set_same [OF this] True show ?thesis by (simp add: store_write_Inr)
    qed
    show ?thesis
      unfolding log_best_model_alt [of tree_ops] tree_ops_simps first
      using opt_write_fixed_point [OF s2] by simp
  qed
qed

lemma after_save_checkpoint_fixed_point:
  assumes "wf_store t" and "after_save_checkpoint tree_ops lg cb t = (r, t1)"
  shows "after_save_checkpoint tree_ops lg cb t1 = (r, t1)"
proof (cases "log_model_checkpoints lg")
  case False
  with assms(2) show ?thesis by (simp add: after_save_checkpoint_def)
next
  case True
  let ?ns = "construct_path_with_prefix lg [''model/checkpoints'']"
  let ?paths = "supplied_paths cb"
  obtain rU t2 where U: "save_best_k_models tree_ops cb ?ns ?paths {} t = (rU, t2)"
    by (metis surj_pair)
  note U2 = uploads_fixed_point [OF U]
  show ?thesis
  proof (cases rU)
    case (Inl e)
    with assms(2) True U have "r = Inl e" "t1 = t2"
      unfolding after_save_checkpoint_alt [of tree_ops] by simp_all
    with U2 Inl True show ?thesis
      unfolding after_save_checkpoint_alt [of tree_ops] by simp
  next
    case (Inr fn)
    note U = U [unfolded Inr] and U2 = U2 [unfolded Inr]
    have fn: "fn = short_name cb ` set ?paths" and valid: "list_all (valid_path cb) ?paths"
      using save_best_k_models_names [OF U] by simp_all
    have wf2: "wf_store t2" using save_best_k_models_tree [OF U assms(1)] by simp
    have files2: "\<forall>p\<in>set ?paths. holds_file cb ?ns t2 p" using uploads_hold_files [OF U] .
    obtain rR t3 where R: "remove_old_models tree_ops ?ns fn t2 = (rR, t3)"
      by (metis surj_pair)
    from remove_old_models_cases [OF wf2 R] show ?thesis
    proof
      assume "rR = Inl AttributeError \<and> t3 = t2
            \<and> (\<exists>a. reduce_subscript t2 (str_split (CHR ''/'') ?ns) = Inr (Attribute a))"
      then have rR: "rR = Inl AttributeError" and t3: "t3 = t2" by simp_all
      with assms(2) True U R have "r = Inl AttributeError" "t1 = t2"
        unfolding after_save_checkpoint_alt [of tree_ops] by simp_all
      with U2 R rR t3 True show ?thesis
        unfolding after_save_checkpoint_alt [of tree_ops] by simp
    next
      assume "\<exists>fs. rR = Inr () \<and> drop_files tree_ops ?ns fs t2 = (Inr (), t3) \<and> set fs \<inter> fn = {}
            \<and> (\<forall>a. reduce_subscript t2 (str_split (CHR ''/'') ?ns) \<noteq> Inr (Attribute a))"
      then obtain fs where rR: "rR = Inr ()"
        and D: "drop_files tree_ops ?ns fs t2 = (Inr (), t3)"
        and disj: "set fs \<inter> fn = {}"
        and noleaf2: "\<forall>a. reduce_subscript t2 (str_split (CHR ''/'') ?ns) \<noteq> Inr (Attribute a)"
        by blast
      note R = R [unfolded rR]
      from remove_old_models_tree [OF R wf2]
      have wf3: "wf_store t3" and l3: "namespace_leaves t3 ?ns = namespace_leaves t2 ?ns \<inter> fn"
        by simp_all
      from assms(2) True U R have L: "log_best_model tree_ops lg cb t3 = (r, t1)"
        unfolding after_save_checkpoint_alt [of tree_ops] by simp
      note keep = log_best_model_any(2) [OF L wf3]
      have wf1: "wf_store t1" using log_best_model_any(1) [OF L wf3] .
      have below: "reduce_subscript t1 (str_split (CHR ''/'') ?ns @ x) = Inr (Attribute b)
          \<longleftrightarrow> reduce_subscript t3 (str_split (CHR ''/'') ?ns @ x) = Inr (Attribute b)" for x b
        by (rule keep) (use best_model_paths_elsewhere [of lg x] in auto)
      have l1: "namespace_leaves t1 ?ns \<subseteq> fn"
        unfolding namespace_leaves_iff [OF wf1] using l3
        unfolding namespace_leaves_iff [OF wf3] below by auto
      have noleaf1: "\<forall>a. reduce_subscript t1 (str_split (CHR ''/'') ?ns) \<noteq> Inr (Attribute a)"
      proof (intro allI notI)
        fix a assume "reduce_subscript t1 (str_split (CHR ''/'') ?ns) = Inr (Attribute a)"
        then have "reduce_subscript t3 (str_split (CHR ''/'') ?ns) = Inr (Attribute a)"
          using below [of "[]" a] by simp
        then have "reduce_subscript t2 (str_split (CHR ''/'') ?ns) = Inr (Attribute a)"
          unfolding drop_files_leaf [OF D] by simp
        with noleaf2 show False by simp
      qed
      have files1: "\<forall>p\<in>set ?paths. valid_path cb p \<and> holds_file cb ?ns t1 p"
      proof
        fix p assume p: "p \<in> set ?paths"
        then have v: "valid_path cb p" using valid by (simp add: list_all_iff)
        have notdropped: "\<forall>f\<in>set fs. str_split (CHR ''/'') (?ns @ ''/'' @ short_name cb p)
            \<noteq> str_split (CHR ''/'') (?ns @ ''/'' @ f)"
        proof (intro ballI notI)
          fix f assume f: "f \<in> set fs"
            and "str_split (CHR ''/'') (?ns @ ''/'' @ short_name cb p)
               = str_split (CHR ''/'') (?ns @ ''/'' @ f)"
          then have "?ns @ ''/'' @ short_name cb p = ?ns @ ''/'' @ f" by (rule_tac str_split_inj)
          then have "f = short_name cb p" by simp
          with p fn have "f \<in> fn" by simp
          with f disj show False by auto
        qed
        from files2 p have "holds_file cb ?ns t2 p" by simp
        then have "holds_file cb ?ns t3 p"
          unfolding holds_file_def drop_files_leaf [OF D] using notdropped by simp
        then have "holds_file cb ?ns t1 p"
          unfolding holds_file_def split_namespace_name below .
        with v show "valid_path cb p \<and> holds_file cb ?ns t1 p" by simp
      qed
      have U1: "save_best_k_models tree_ops cb ?ns ?paths {} t1 = (Inr fn, t1)"
        using uploads_replay [OF files1, of "{}"] fn by simp
      have R1: "remove_old_models tree_ops ?ns fn t1 = (Inr (), t1)"
        using remove_old_models_noop [OF wf1 l1 noleaf1] .
      from U1 R1 log_best_model_fixed_point [OF L] True show ?thesis
        unfolding after_save_checkpoint_alt [of tree_ops] by simp
    qed
  qed
qed

text \<open>
  C4: on the tree store, in a state that is a well-formed nested dict, a second call with the
  same logger and the same callback, made in the state the first call left, ends as the first
  did (it returns, or raises the same exception) and leaves the run as it found it; so the
  leaves below the checkpoints namespace after the second call are those after the first.
  This holds whether or not the first call returned.
\<close>

theorem second_call_changes_nothing:
  assumes "wf_store t" and "after_save_checkpoint tree_ops lg cb t = (r, t1)"
  shows "after_save_checkpoint tree_ops lg cb t1 = (r, t1)
       \<and> namespace_leaves (snd (after_save_checkpoint tree_ops lg cb t1))
            (construct_path_with_prefix lg [''model/checkpoints''])
         = namespace_leaves t1 (construct_path_with_prefix lg [''model/checkpoints''])"
  using after_save_checkpoint_fixed_point [OF assms] by simp

theorem second_call_changes_nothing_witness:
  "wf_store (Namespace [(''training'', Namespace [(''model'', Namespace [(''checkpoints'',
        Namespace [(''e1.pt'', Attribute (FileAttr ''/ckpt/e1.pt'')),
                   (''e2.pt'', Attribute (FileAttr ''/ckpt/e2.pt'')),
                   (''e3.pt'', Attribute (FileAttr ''/ckpt/e3.pt''))])])])])
   \<and> after_save_checkpoint tree_ops \<lparr>log_model_checkpoints = True, prefix = ''training''\<rparr>
       \<lparr>dirpath = ''/ckpt'', last_model_path = ''/ckpt/e4.pt'',
        best_k_models = [(''/ckpt/e3.pt'', 9 / 10), (''/ckpt/e4.pt'', 19 / 20)],
        best_model_path = ''/ckpt/e4.pt'', best_model_score = Some (19 / 20)\<rparr>
       (Namespace [(''training'', Namespace [(''model'', Namespace [(''checkpoints'',
        Namespace [(''e1.pt'', Attribute (FileAttr ''/ckpt/e1.pt'')),
                   (''e2.pt'', Attribute (FileAttr ''/ckpt/e2.pt'')),
                   (''e3.pt'', Attribute (FileAttr ''/ckpt/e3.pt''))])])])])
     = (Inr (),
        Namespace [(''training'', Namespace [(''model'', Namespace [(''checkpoints'',
          Namespace [(''e3.pt'', Attribute (FileAttr ''/ckpt/e3.pt'')),
                     (''e4.pt'', Attribute (FileAttr ''/ckpt/e4.pt''))]),
          (''best_model_path'', Attribute (StringAttr ''/ckpt/e4.pt'')),
          (''best_model_score'', Attribute (FloatAttr (19 / 20)))])])])
   \<and> after_save_checkpoint tree_ops \<lparr>log_model_checkpoints = True, prefix = ''training''\<rparr>
       \<lparr>dirpath = ''/ckpt'', last_model_path = ''/ckpt/e4.pt'',
        best_k_models = [(''/ckpt/e3.pt'', 9 / 10), (''/ckpt/e4.pt'', 19 / 20)],
        best_model_path = ''/ckpt/e4.pt'', best_model_score = Some (19 / 20)\<rparr>
       (Namespace [(''training'', Namespace [(''model'', Namespace [(''checkpoints'',
          Namespace [(''e3.pt'', Attribute (FileAttr ''/ckpt/e3.pt'')),
                     (''e4.pt'', Attribute (FileAttr ''/ckpt/e4.pt''))]),
          (''best_model_path'', Attribute (StringAttr ''/ckpt/e4.pt'')),
          (''best_model_score'', Attribute (FloatAttr (19 / 20)))])])])
     = (Inr (),
        Namespace [(''training'', Namespace [(''model'', Namespace [(''checkpoints'',
          Namespace [(''e3.pt'', Attribute (FileAttr ''/ckpt/e3.pt'')),
                     (''e4.pt'', Attribute (FileAttr ''/ckpt/e4.pt''))]),
          (''best_model_path'', Attribute (StringAttr ''/ckpt/e4.pt'')),
          (''best_model_score'', Attribute (FloatAttr (19 / 20)))])])])"
proof -
  let ?lg = "\<lparr>log_model_checkpoints = True, prefix = ''training''\<rparr>"
  let ?cb = "\<lparr>dirpath = ''/ckpt'', last_model_path = ''/ckpt/e4.pt'',
        best_k_models = [(''/ckpt/e3.pt'', 9 / 10), (''/ckpt/e4.pt'', 19 / 20)],
        best_model_path = ''/ckpt/e4.pt'', best_model_score = Some (19 / 20)\<rparr>"
  let ?t = "Namespace [(''training'', Namespace [(''model'', Namespace [(''checkpoints'',
        Namespace [(''e1.pt'', Attribute (FileAttr ''/ckpt/e1.pt'')),
                   (''e2.pt'', Attribute (FileAttr ''/ckpt/e2.pt'')),
                   (''e3.pt'', Attribute (FileAttr ''/ckpt/e3.pt''))])])])]"
  let ?t1 = "Namespace [(''training'', Namespace [(''model'', Namespace [(''checkpoints'',
          Namespace [(''e3.pt'', Attribute (FileAttr ''/ckpt/e3.pt'')),
                     (''e4.pt'', Attribute (FileAttr ''/ckpt/e4.pt''))]),
          (''best_model_path'', Attribute (StringAttr ''/ckpt/e4.pt'')),
          (''best_model_score'', Attribute (FloatAttr (19 / 20)))])])]"
  have h1: "wf_store ?t" by (simp add: wf_store_def)
  have run: "after_save_checkpoint tree_ops ?lg ?cb ?t = (Inr (), ?t1)"
    by (simp add: run_defs)
  from second_call_changes_nothing [OF h1 run]
  have "after_save_checkpoint tree_ops ?lg ?cb ?t1 = (Inr (), ?t1)" by (rule conjunct1)
  with h1 run show ?thesis by blast
qed

subsection \<open>Short names\<close>

text \<open>
  C9, first half together with what holds of the second: when the path starts with the
  directory path followed by \<open>/\<close>, \<^verbatim>\<open>_get_full_model_name\<close> returns a short name, and
  prepending the directory path and \<open>/\<close> to it gives the path back. The short name starts
  with \<open>/\<close> exactly when the path has a second \<open>/\<close> right after the directory prefix.
\<close>

theorem get_full_model_name_inverse:
  assumes "startswith model_path (dirpath cb @ ''/'')"
  shows "\<exists>name. get_full_model_name model_path cb = Inr name
           \<and> dirpath cb @ ''/'' @ name = model_path
           \<and> (startswith name ''/'' \<longleftrightarrow> startswith model_path (dirpath cb @ ''//''))"
proof -
  from assms obtain r where r: "model_path = (dirpath cb @ ''/'') @ r"
    unfolding startswith_iff by blast
  have "get_full_model_name model_path cb = Inr r"
    using r by (simp add: get_full_model_name_def startswith_def)
  moreover have "dirpath cb @ ''/'' @ r = model_path"
    using r by simp
  moreover have "startswith r ''/'' \<longleftrightarrow> startswith model_path (dirpath cb @ ''//'')"
    using r by (auto simp: startswith_iff)
  ultimately show ?thesis by blast
qed

theorem get_full_model_name_inverse_witness:
  "startswith ''/ckpt/e5.pt'' (dirpath \<lparr>dirpath = ''/ckpt'', last_model_path = '''',
       best_k_models = [], best_model_path = '''', best_model_score = None\<rparr> @ ''/'')
   \<and> (\<exists>name. get_full_model_name ''/ckpt/e5.pt'' \<lparr>dirpath = ''/ckpt'', last_model_path = '''',
       best_k_models = [], best_model_path = '''', best_model_score = None\<rparr> = Inr name
       \<and> ''/ckpt'' @ ''/'' @ name = ''/ckpt/e5.pt'')"
proof -
  let ?cb = "\<lparr>dirpath = ''/ckpt'', last_model_path = '''',
       best_k_models = [], best_model_path = '''', best_model_score = None\<rparr>"
  have h: "startswith ''/ckpt/e5.pt'' (dirpath ?cb @ ''/'')"
    by (simp add: startswith_def)
  from get_full_model_name_inverse [OF h] h show ?thesis by auto
qed

text \<open>
  C9 as stated fails in its second half: with directory \<open>/ckpt\<close> the path
  \<open>/ckpt//ckpt/e5.pt\<close> is accepted, and its short name \<open>/ckpt/e5.pt\<close> starts with the
  separator (and with the directory prefix followed by the separator).
\<close>

theorem get_full_model_name_separator_counterexample:
  "startswith ''/ckpt//ckpt/e5.pt'' (''/ckpt'' @ ''/'')
   \<and> get_full_model_name ''/ckpt//ckpt/e5.pt'' \<lparr>dirpath = ''/ckpt'', last_model_path = '''',
       best_k_models = [], best_model_path = '''', best_model_score = None\<rparr> = Inr ''/ckpt/e5.pt''
   \<and> startswith ''/ckpt/e5.pt'' ''/''
   \<and> startswith ''/ckpt/e5.pt'' (''/ckpt'' @ ''/'')"
  by (simp add: get_full_model_name_def startswith_def)

end
